theory Spec2Isabelle
  imports Main "HOL-Library.Word" "HOL-Library.List_Lexorder"
begin

unbundle bit_operations_syntax

section \<open>The bit-compressed suffix array\<close>

text \<open>
  The byte alphabet of a CSA: \<open>char2comp\<close> is a table of 256 entries indexed by a
  character (a total function on bytes), \<open>comp2char\<close> its inverse table, \<open>C\<close> the
  cumulative counts and \<open>sigma\<close> the number of distinct characters.
\<close>

record byte_alphabet =
  char2comp :: "8 word \<Rightarrow> nat"
  comp2char :: "8 word list"
  C :: "nat list"
  sigma :: nat

text \<open>
  \<open>csa_bitcompressed\<close> stores the suffix array and its inverse uncompressed
  (sampling density 1) beside the alphabet. Stored values and indices are
  \<open>uint64_t\<close>; they are modelled as natural numbers, and the one place where the
  unsigned wrap-around is reachable (\<open>select_bwt\<close>) writes it out. Reading a vector
  outside its range is undefined in the source; here it is the unspecified value of
  \<open>!\<close>, and the theorems below carry hypotheses that keep the reads of SA, ISA and
  \<open>C\<close> in range.
\<close>

record csa_bitcompressed =
  m_sa :: "nat list"
  m_isa :: "nat list"
  m_alphabet :: byte_alphabet

definition csa_size :: "csa_bitcompressed \<Rightarrow> nat" where
  "csa_size csa = length (m_sa csa)"

definition csa_empty :: "csa_bitcompressed \<Rightarrow> bool" where
  "csa_empty csa = (m_sa csa = [])"

definition csa_at :: "csa_bitcompressed \<Rightarrow> nat \<Rightarrow> nat" where
  \<comment> \<open>\<open>operator[]\<close>\<close>
  "csa_at csa i = m_sa csa ! i"

definition isa :: "csa_bitcompressed \<Rightarrow> nat \<Rightarrow> nat" where
  "isa csa i = m_isa csa ! i"

definition psi :: "csa_bitcompressed \<Rightarrow> nat \<Rightarrow> nat" where
  \<comment> \<open>\<open>traverse_csa_saisa_trait<t_csa, true>::access\<close>\<close>
  "psi csa i = isa csa ((csa_at csa i + 1) mod csa_size csa)"

definition lf :: "csa_bitcompressed \<Rightarrow> nat \<Rightarrow> nat" where
  \<comment> \<open>\<open>traverse_csa_saisa_trait<t_csa, false>::access\<close>\<close>
  "lf csa i = isa csa ((csa_at csa i + csa_size csa - 1) mod csa_size csa)"

text \<open>
  The stored suffix array is a permutation of \<open>[0, n)\<close> and the stored inverse
  suffix array undoes it.
\<close>

definition sa_isa_inverse :: "csa_bitcompressed \<Rightarrow> bool" where
  "sa_isa_inverse csa \<longleftrightarrow>
     length (m_isa csa) = length (m_sa csa) \<and>
     (\<forall>i < length (m_sa csa). m_sa csa ! i < length (m_sa csa)) \<and>
     (\<forall>i < length (m_sa csa). m_isa csa ! (m_sa csa ! i) = i)"

subsection \<open>The \<open>empty\<close> member of the two traversal views\<close>

text \<open>
  A view holds a reference to its host CSA. \<open>traverse_csa_psi::empty\<close> returns
  \<open>m_csa.empty()\<close>. \<open>traverse_csa_saisa::empty\<close> is written
  \<open>return m_csa, empty();\<close>: the comma expression evaluates \<open>m_csa\<close>, discards it,
  and calls the view's own \<open>empty()\<close> again. A call that does not return is the
  value \<open>None\<close>.
\<close>

record traverse_csa_view =
  view_m_csa :: csa_bitcompressed

definition traverse_csa_psi_empty :: "traverse_csa_view \<Rightarrow> bool option" where
  "traverse_csa_psi_empty v = Some (csa_empty (view_m_csa v))"

partial_function (option) traverse_csa_saisa_empty :: "traverse_csa_view \<Rightarrow> bool option" where
  "traverse_csa_saisa_empty v = (let discarded = view_m_csa v in traverse_csa_saisa_empty v)"

section \<open>\<open>vlc_vector\<close>: equality\<close>

text \<open>
  A \<open>vlc_vector\<close> holds the compressed bit stream \<open>m_z\<close>, the sample pointers and
  the number of elements.
\<close>

record vlc_vector =
  m_z :: "bool list"
  m_sample_pointer :: "nat list"
  m_size :: nat

definition vlc_default :: vlc_vector where
  "vlc_default = \<lparr> m_z = [], m_sample_pointer = [], m_size = 0 \<rparr>"

definition vlc_eq :: "vlc_vector \<Rightarrow> vlc_vector \<Rightarrow> bool" where
  \<comment> \<open>\<open>operator==\<close>: \<open>m_size && v.m_size && m_z == v.m_z && m_sample_pointer == v.m_sample_pointer\<close>\<close>
  "vlc_eq a v \<longleftrightarrow>
     m_size a \<noteq> 0 \<and> m_size v \<noteq> 0 \<and> m_z a = m_z v \<and> m_sample_pointer a = m_sample_pointer v"

definition vlc_neq :: "vlc_vector \<Rightarrow> vlc_vector \<Rightarrow> bool" where
  \<comment> \<open>\<open>operator!=\<close>\<close>
  "vlc_neq a v \<longleftrightarrow> \<not> vlc_eq a v"

section \<open>\<open>store_to_file\<close>\<close>

text \<open>
  The part of the world \<open>store_to_file\<close> touches: which paths can be opened for
  writing, the contents of the files, the flag \<open>util::verbose\<close> and the lines printed
  to \<open>std::cerr\<close>. Writing to a stream that failed to open changes no file.
\<close>

record io_world =
  openable :: "string \<Rightarrow> bool"
  files :: "string \<rightharpoonup> string"
  verbose :: bool
  cerr :: "string list"

definition write_file :: "string \<Rightarrow> string \<Rightarrow> io_world \<Rightarrow> io_world" where
  \<comment> \<open>open with \<open>trunc\<close>, write, close; nothing happens when the stream is not open\<close>
  "write_file file bytes w =
     (if openable w file then w\<lparr> files := (files w)(file \<mapsto> bytes) \<rparr> else w)"

definition log_cerr :: "string \<Rightarrow> io_world \<Rightarrow> io_world" where
  "log_cerr line w = w\<lparr> cerr := cerr w @ [line] \<rparr>"

definition store_to_file_cstr :: "string \<Rightarrow> string \<Rightarrow> io_world \<Rightarrow> bool \<times> io_world" where
  \<comment> \<open>\<open>store_to_file(char const * v, std::string const & file)\<close>: the \<open>return false\<close>
      sits inside the \<open>if (util::verbose)\<close> block\<close>
  "store_to_file_cstr v file w =
     (if \<not> openable w file \<and> verbose w
      then (False, log_cerr ''ERROR: store_to_file(const char *v, const std::string&)'' w)
      else (True, write_file file v w))"

definition store_to_file_string :: "string \<Rightarrow> string \<Rightarrow> io_world \<Rightarrow> bool \<times> io_world" where
  \<comment> \<open>\<open>store_to_file(std::string const & v, std::string const & file)\<close>, same shape\<close>
  "store_to_file_string v file w =
     (if \<not> openable w file \<and> verbose w
      then (False, log_cerr ''ERROR: store_to_file(const std::string& v, const std::string&)'' w)
      else (True, write_file file v w))"

definition store_to_file_generic ::
  "('t \<Rightarrow> string) \<Rightarrow> 't \<Rightarrow> string \<Rightarrow> io_world \<Rightarrow> bool \<times> io_world" where
  \<comment> \<open>\<open>template <typename T> store_to_file(T const & t, std::string const & file)\<close>;
      the first argument is \<open>serialize\<close> for \<open>T\<close>\<close>
  "store_to_file_generic serialize t file w =
     (if \<not> openable w file
      then (False, if verbose w
                   then log_cerr (''ERROR: store_to_file not successful for: `'' @ file @ ''`'') w
                   else w)
      else (let w1 = write_file file (serialize t) w
            in (True, if verbose w1
                      then log_cerr (''INFO: store_to_file: `'' @ file @ ''`'') w1
                      else w1)))"

section \<open>\<open>vlc_vector\<close>: construction\<close>

text \<open>
  The constructors take the self-delimiting coder as a template parameter; its
  \<open>encoding_length\<close> and \<open>encode\<close> are parameters here. Both take a \<open>uint64_t\<close>.
  \<open>encode\<close> writes the code of a value into the bit stream at the current offset
  and advances the offset.
\<close>

datatype construction_error = Logic_error string

record coder =
  encoding_length :: "64 word \<Rightarrow> nat"
  encode :: "64 word \<Rightarrow> bool list \<times> nat \<Rightarrow> bool list \<times> nat"

text \<open>
  \<open>vlc_vector(Container const & c)\<close> is a template over the container, a
  ``Container of unsigned integers''. The expression \<open>c[i] + 1\<close> is evaluated by the
  usual arithmetic conversions of C++: an element type narrower than \<open>int\<close>
  (\<open>uint8_t\<close>, \<open>uint16_t\<close>) is promoted to the 32-bit \<open>int\<close>, where \<open>c[i] + 1\<close>
  cannot overflow; an element type of 32 bits or more (\<open>uint32_t\<close>, \<open>uint64_t\<close>)
  keeps its own unsigned type, where \<open>c[i] + 1\<close> wraps. An element is a
  \<open>'a word\<close>, \<open>LENGTH('a)\<close> the width of the element type.

  \<open>elem_succ_less_1 x\<close> is the test \<open>c[i] + 1 < 1\<close>; \<open>elem_succ x\<close> is
  \<open>c[i] + 1\<close> converted to the \<open>uint64_t\<close> parameter of
  \<open>t_coder::encoding_length\<close> and \<open>t_coder::encode\<close>.
\<close>

definition elem_succ_less_1 :: "'a::len word \<Rightarrow> bool" where
  "elem_succ_less_1 x =
     (if LENGTH('a) < 32 then uint x + 1 < (1::int) else x + 1 < 1)"

definition elem_succ :: "'a::len word \<Rightarrow> 64 word" where
  "elem_succ x =
     (if LENGTH('a) < 32 then word_of_int (uint x + 1) else ucast (x + 1))"

text \<open>
  Loop (1), ``calculate size of z'': the only place that throws. The accumulated
  value is \<open>z_size\<close>.
\<close>

fun size_of_z :: "coder \<Rightarrow> 'a::len word list \<Rightarrow> nat \<Rightarrow> construction_error + nat" where
  "size_of_z cd [] z_size = Inr z_size"
| "size_of_z cd (x # c) z_size =
     (if elem_succ_less_1 x
      then Inl (Logic_error ''vlc_vector cannot decode values smaller than 1!'')
      else size_of_z cd c (z_size + encoding_length cd (elem_succ x)))"

text \<open>
  Loop (2), ``write z'': the local variables of the constructor, and \<open>encoded\<close>,
  the values handed to \<open>t_coder::encode\<close> so far, in order.
\<close>

record write_state =
  z_data :: "bool list \<times> nat"
  sample_pointer :: "nat list"
  z_size :: nat
  sample_cnt :: nat
  no_sample :: nat
  encoded :: "64 word list"

fun write_z :: "coder \<Rightarrow> nat \<Rightarrow> 'a::len word list \<Rightarrow> write_state \<Rightarrow> write_state" where
  "write_z cd dens [] s = s"
| "write_z cd dens (x # c) s =
     (let s1 = (if no_sample s = 0
                then s\<lparr> no_sample := dens,
                        sample_pointer := (sample_pointer s)[sample_cnt s := z_size s],
                        sample_cnt := sample_cnt s + 1 \<rparr>
                else s);
          s2 = s1\<lparr> z_data := encode cd (elem_succ x) (z_data s1),
                    encoded := encoded s1 @ [elem_succ x],
                    z_size := z_size s1 + encoding_length cd (elem_succ x) \<rparr>
      in write_z cd dens c (s2\<lparr> no_sample := no_sample s2 - 1 \<rparr>))"

text \<open>
  The body of the constructors after the test for an empty input.
  \<open>dens\<close> is \<open>get_sample_dens()\<close>. The result pairs the values that were
  encoded with either the thrown \<open>std::logic_error\<close> or the constructed object.
\<close>

definition build_vlc ::
  "coder \<Rightarrow> nat \<Rightarrow> 'a::len word list \<Rightarrow> 64 word list \<times> (construction_error + vlc_vector)" where
  "build_vlc cd dens c =
     (case size_of_z cd c 0 of
        Inl e \<Rightarrow> ([], Inl e)
      | Inr total_size \<Rightarrow>
          (let samples = (length c + dens - 1) div dens;
               s = write_z cd dens c
                     \<lparr> z_data = (replicate total_size False, 0),
                       sample_pointer = replicate (samples + 1) 0,
                       z_size = 0, sample_cnt = 0, no_sample = 0, encoded = [] \<rparr>
           in (encoded s,
               Inr \<lparr> m_z = fst (z_data s), m_sample_pointer = sample_pointer s,
                     m_size = length c \<rparr>)))"

definition vlc_vector_from_container ::
  \<comment> \<open>\<open>vlc_vector(Container const & c)\<close>\<close>
  "coder \<Rightarrow> nat \<Rightarrow> 'a::len word list \<Rightarrow> 64 word list \<times> (construction_error + vlc_vector)" where
  "vlc_vector_from_container cd dens c =
     (if c = [] then ([], Inr vlc_default) else build_vlc cd dens c)"

text \<open>
  \<open>vlc_vector(int_vector_buffer<int_width> & v_buf)\<close> reads \<open>v_buf[i]\<close> as a
  \<open>uint64_t\<close> and stores \<open>v_buf[i] + 1\<close> in a \<open>size_type x\<close> before the test
  \<open>x < 1\<close>: the arithmetic is that of 64 bits whatever \<open>int_width\<close> is, and the two
  loops are those of the container constructor at an element type of 64 bits.
\<close>

definition vlc_vector_from_buffer ::
  \<comment> \<open>\<open>vlc_vector(int_vector_buffer<int_width> & v_buf)\<close>\<close>
  "coder \<Rightarrow> nat \<Rightarrow> 64 word list \<Rightarrow> 64 word list \<times> (construction_error + vlc_vector)" where
  "vlc_vector_from_buffer cd dens v_buf =
     (let n = length v_buf
      in if n = 0 then ([], Inr vlc_default) else build_vlc cd dens v_buf)"

section \<open>Rank and select on a bit vector\<close>

text \<open>
  A bit vector is stored in 64-bit words; \<open>data\<close> is the array of words and bit \<open>j\<close>
  of the sequence is bit \<open>j mod 64\<close> of word \<open>j div 64\<close>. Positions and counts are
  \<open>size_type\<close> values below the number of stored bits, written as natural numbers.
  Reading a word outside \<open>data\<close> is undefined in the source and gives \<open>None\<close> here.
\<close>

definition cnt :: "64 word \<Rightarrow> nat" where
  \<comment> \<open>Modelled from the spec: \<open>bits::cnt\<close>, the population count of a word
      (\<open>bits.hpp\<close> is not among the sources).\<close>
  "cnt x = length (filter (bit x) [0..<64])"

definition lo_set :: "nat \<Rightarrow> 64 word" where
  \<comment> \<open>Modelled from the spec: the table \<open>bits::lo_set\<close>; entry \<open>i\<close> has the \<open>i\<close>
      lowest bits set.\<close>
  "lo_set i = mask i"

definition map10 :: "64 word \<Rightarrow> 64 word \<Rightarrow> 64 word" where
  \<comment> \<open>Modelled from the spec: \<open>bits::map10(x, c)\<close> marks every position holding a
      0 whose predecessor holds a 1; the carry \<open>c\<close> stands for the predecessor of
      bit 0.\<close>
  "map10 x c = (x XOR (push_bit 1 x OR c)) AND NOT x"

definition word_rank_10 :: "64 word list \<Rightarrow> nat \<Rightarrow> nat option" where
  \<comment> \<open>\<open>rank_support_trait<10, 2>::word_rank(data, idx)\<close>\<close>
  "word_rank_10 data idx =
     (if idx div 64 < length data
      then (let carry = (if idx > 63 then drop_bit 63 (data ! (idx div 64 - 1)) else 0)
            in Some (cnt (map10 (data ! (idx div 64)) carry AND lo_set (idx mod 64))))
      else None)"

definition init_carry_10 :: "64 word" where
  \<comment> \<open>\<open>rank_support_trait<10, 2>::init_carry()\<close>\<close>
  "init_carry_10 = 0"

text \<open>
  What the counts are about: bit \<open>j\<close> of the sequence, and an occurrence of the
  pattern \<open>10\<close> registered at \<open>j\<close>, that is a 0 at \<open>j\<close> preceded by a 1, where the bit
  before position 0 counts as 0.
\<close>

definition bit_at :: "64 word list \<Rightarrow> nat \<Rightarrow> bool" where
  "bit_at data j = bit (data ! (j div 64)) (j mod 64)"

definition occ10 :: "64 word list \<Rightarrow> nat \<Rightarrow> bool" where
  "occ10 data j \<longleftrightarrow> \<not> bit_at data j \<and> 0 < j \<and> bit_at data (j - 1)"

definition count10 :: "64 word list \<Rightarrow> nat \<Rightarrow> nat \<Rightarrow> nat" where
  "count10 data a b = length (filter (occ10 data) [a..<b])"

subsection \<open>\<open>select_support_scan<1, 1>\<close>\<close>

definition lo_unset :: "nat \<Rightarrow> 64 word" where
  \<comment> \<open>Modelled from the spec: the table \<open>bits::lo_unset\<close>; entry \<open>i\<close> has the \<open>i\<close>
      lowest bits cleared and all others set.\<close>
  "lo_unset i = NOT (mask i)"

definition sel :: "64 word \<Rightarrow> nat \<Rightarrow> nat option" where
  \<comment> \<open>Modelled from the spec: \<open>bits::sel(x, i)\<close>, the position of the \<open>i\<close>-th set bit
      of \<open>x\<close> counted from the lowest, for \<open>1 \<le> i \<le> cnt(x)\<close>; outside that range the
      source promises nothing.\<close>
  "sel x i = (if 1 \<le> i \<and> i \<le> cnt x then Some (filter (bit x) [0..<64] ! (i - 1)) else None)"

text \<open>
  Modelled from the spec: \<open>select_support_trait<1, 1>\<close> (\<open>select_support.hpp\<close> is
  not among the sources). For the pattern \<open>1\<close> no carry is needed: every carry is 0
  and is ignored. The position functions take \<open>i\<close> cast to \<open>uint32_t\<close>.
\<close>

definition init_carry :: "64 word list \<Rightarrow> nat \<Rightarrow> 64 word" where
  "init_carry data word_pos = 0"

definition get_carry :: "64 word \<Rightarrow> 64 word" where
  "get_carry w = 0"

definition args_in_the_first_word :: "64 word \<Rightarrow> nat \<Rightarrow> 64 word \<Rightarrow> nat" where
  "args_in_the_first_word w offset carry = cnt (w AND lo_unset offset)"

definition ith_arg_pos_in_the_first_word :: "64 word \<Rightarrow> nat \<Rightarrow> nat \<Rightarrow> 64 word \<Rightarrow> nat option" where
  "ith_arg_pos_in_the_first_word w i offset carry = sel (w AND lo_unset offset) (i mod 2 ^ 32)"

definition args_in_the_word :: "64 word \<Rightarrow> 64 word \<Rightarrow> nat" where
  "args_in_the_word w carry = cnt w"

definition ith_arg_pos_in_the_word :: "64 word \<Rightarrow> nat \<Rightarrow> 64 word \<Rightarrow> nat option" where
  "ith_arg_pos_in_the_word w i carry = sel w (i mod 2 ^ 32)"

text \<open>
  The \<open>while\<close> loop of \<open>select\<close> and the return after it. \<open>w\<close> is the word under
  \<open>data\<close> and \<open>rest\<close> the words behind it, so \<open>*(++data)\<close> takes the head of \<open>rest\<close>
  and is out of bounds when \<open>rest\<close> is empty. \<open>sum_args < i\<close> holds whenever the
  subtraction \<open>i - sum_args\<close> is reached, so it does not wrap.
\<close>

fun select_loop ::
  "64 word \<Rightarrow> 64 word list \<Rightarrow> nat \<Rightarrow> nat \<Rightarrow> nat \<Rightarrow> nat \<Rightarrow> 64 word \<Rightarrow> 64 word \<Rightarrow> nat option" where
  "select_loop w [] i sum_args args word_pos old_carry carry =
     (if sum_args + args < i
      then None
      else map_option (\<lambda>p. push_bit 6 word_pos + p)
             (ith_arg_pos_in_the_word w (i - sum_args) old_carry))"
| "select_loop w (w' # rest') i sum_args args word_pos old_carry carry =
     (if sum_args + args < i
      then select_loop w' rest' i (sum_args + args) (args_in_the_word w' carry)
             (word_pos + 1) carry carry
      else map_option (\<lambda>p. push_bit 6 word_pos + p)
             (ith_arg_pos_in_the_word w (i - sum_args) old_carry))"

definition select :: "64 word list \<Rightarrow> nat \<Rightarrow> nat option" where
  \<comment> \<open>\<open>select_support_scan<1, 1>::select(i)\<close> on the words of the supported vector\<close>
  "select data i =
     (case data of
        [] \<Rightarrow> None
      | w0 # rest \<Rightarrow>
          (let word_pos = 0; word_off = 0;
               carry = init_carry data word_pos;
               args = args_in_the_first_word w0 word_off carry
           in if args \<ge> i
              then map_option (\<lambda>p. push_bit 6 word_pos + p)
                     (ith_arg_pos_in_the_first_word w0 i word_off carry)
              else (let carry = get_carry w0
                    in case rest of
                         [] \<Rightarrow> None
                       | w1 # rest1 \<Rightarrow>
                           select_loop w1 rest1 i args (args_in_the_word w1 carry)
                             (word_pos + 1) carry carry)))"

definition rank1 :: "64 word list \<Rightarrow> nat \<Rightarrow> nat" where
  \<comment> \<open>the number of one-bits among the bits \<open>[0, p)\<close> of the sequence\<close>
  "rank1 data p = length (filter (bit_at data) [0..<p])"

section \<open>The first row of the sorted suffixes\<close>

definition csa_C :: "csa_bitcompressed \<Rightarrow> nat list" where
  "csa_C csa = C (m_alphabet csa)"

definition csa_sigma :: "csa_bitcompressed \<Rightarrow> nat" where
  "csa_sigma csa = sigma (m_alphabet csa)"

definition csa_comp2char :: "csa_bitcompressed \<Rightarrow> 8 word list" where
  "csa_comp2char csa = comp2char (m_alphabet csa)"

definition csa_char2comp :: "csa_bitcompressed \<Rightarrow> 8 word \<Rightarrow> nat" where
  "csa_char2comp csa = char2comp (m_alphabet csa)"

text \<open>
  \<open>first_row_symbol\<close>, small alphabets: the \<open>while\<close> loop that advances \<open>res\<close>.
\<close>

function linear_search_C :: "csa_bitcompressed \<Rightarrow> nat \<Rightarrow> nat \<Rightarrow> nat" where
  "linear_search_C csa i res =
     (if res < csa_sigma csa \<and> csa_C csa ! res \<le> i
      then linear_search_C csa i (res + 1)
      else res)"
  by pat_completeness auto
termination
  by (relation "measure (\<lambda>(csa, i, res). csa_sigma csa - res)") auto

declare linear_search_C.simps [simp del]

text \<open>
  Large alphabets: the \<open>do \<dots> while\<close> loop of the binary search, with \<open>lower_c\<close>
  inclusive and \<open>upper_c\<close> exclusive. Nothing in the loop itself bounds the number of
  rounds, so a run that does not end is \<open>None\<close>.
\<close>

partial_function (option) binary_search_C ::
  "csa_bitcompressed \<Rightarrow> nat \<Rightarrow> nat \<Rightarrow> nat \<Rightarrow> nat option" where
  "binary_search_C csa i upper_c lower_c =
     (let res = (upper_c + lower_c) div 2;
          upper_c' = (if i < csa_C csa ! res then res else upper_c);
          lower_c' = (if i < csa_C csa ! res then lower_c
                      else if i \<ge> csa_C csa ! (res + 1) then res + 1 else lower_c)
      in if i < csa_C csa ! res \<or> i \<ge> csa_C csa ! (res + 1)
         then binary_search_C csa i upper_c' lower_c'
         else Some res)"

definition first_row_symbol :: "nat \<Rightarrow> csa_bitcompressed \<Rightarrow> 8 word option" where
  "first_row_symbol i csa =
     (if csa_sigma csa < 16
      then (let res = linear_search_C csa i 1 in Some (csa_comp2char csa ! (res - 1)))
      else (case binary_search_C csa i (csa_sigma csa) 0 of
              None \<Rightarrow> None
            | Some res \<Rightarrow> Some (csa_comp2char csa ! res)))"

text \<open>
  The cumulative counts are non-decreasing, start at 0 and end at the size of the
  CSA.
\<close>

definition C_cumulative :: "csa_bitcompressed \<Rightarrow> bool" where
  "C_cumulative csa \<longleftrightarrow>
     length (csa_C csa) = csa_sigma csa + 1 \<and>
     (\<forall>k < csa_sigma csa. csa_C csa ! k \<le> csa_C csa ! (k + 1)) \<and>
     csa_C csa ! 0 = 0 \<and>
     csa_C csa ! csa_sigma csa = csa_size csa"

definition in_bucket :: "csa_bitcompressed \<Rightarrow> nat \<Rightarrow> nat \<Rightarrow> bool" where
  \<comment> \<open>\<open>i\<close> lies in the half-open interval \<open>[C[k], C[k+1])\<close>\<close>
  "in_bucket csa i k \<longleftrightarrow> k < csa_sigma csa \<and> csa_C csa ! k \<le> i \<and> i < csa_C csa ! (k + 1)"

section \<open>\<open>rank_bwt\<close> and \<open>select_bwt\<close>\<close>

text \<open>
  The binary search of \<open>rank_bwt\<close> over the interval \<open>[lower_b, upper_b)\<close>; the value
  is \<open>lower_b\<close> after the loop.
\<close>

function rank_bwt_loop :: "csa_bitcompressed \<Rightarrow> nat \<Rightarrow> nat \<Rightarrow> nat \<Rightarrow> nat" where
  "rank_bwt_loop csa i lower_b upper_b =
     (if lower_b + 1 < upper_b
      then (let mid = (lower_b + upper_b) div 2
            in if psi csa mid \<ge> i
               then rank_bwt_loop csa i lower_b mid
               else rank_bwt_loop csa i mid upper_b)
      else lower_b)"
  by pat_completeness auto
termination
  by (relation "measure (\<lambda>(csa, i, lower_b, upper_b). upper_b - lower_b)") auto

declare rank_bwt_loop.simps [simp del]

definition rank_bwt :: "csa_bitcompressed \<Rightarrow> nat \<Rightarrow> 8 word \<Rightarrow> nat" where
  "rank_bwt csa i c =
     (let cc = csa_char2comp csa c
      in if cc = 0 \<and> c \<noteq> 0 then 0
         else (let lower_b = rank_bwt_loop csa i (csa_C csa ! cc) (csa_C csa ! (1 + cc))
               in if lower_b > csa_C csa ! cc
                  then lower_b - csa_C csa ! cc + 1
                  else (if psi csa lower_b < i then 1 else 0)))"

text \<open>
  In \<open>select_bwt\<close> the index \<open>C[cc] + i - 1\<close> is computed in \<open>uint64_t\<close>: for
  \<open>C[cc] = 0\<close> and \<open>i = 0\<close> it wraps to \<open>2^64 - 1\<close>.
\<close>

definition select_bwt :: "csa_bitcompressed \<Rightarrow> nat \<Rightarrow> 8 word \<Rightarrow> nat" where
  "select_bwt csa i c =
     (let cc = csa_char2comp csa c
      in if cc = 0 \<and> c \<noteq> 0 then csa_size csa
         else if (csa_C csa ! cc + i + 2 ^ 64 - 1) mod 2 ^ 64 < csa_C csa ! (1 + cc)
              then psi csa ((csa_C csa ! cc + i + 2 ^ 64 - 1) mod 2 ^ 64)
              else csa_size csa)"

subsection \<open>A CSA of a text\<close>

text \<open>
  The Burrows-Wheeler transform of the text \<open>T\<close> read through the suffix array:
  \<open>BWT[j]\<close> is the text character at position \<open>(SA[j] + n - 1) mod n\<close>; and the number
  of positions \<open>j < i\<close> with \<open>BWT[j] = c\<close>.
\<close>

definition bwt_char :: "8 word list \<Rightarrow> csa_bitcompressed \<Rightarrow> nat \<Rightarrow> 8 word" where
  "bwt_char T csa j = T ! ((csa_at csa j + csa_size csa - 1) mod csa_size csa)"

definition bwt_count :: "8 word list \<Rightarrow> csa_bitcompressed \<Rightarrow> nat \<Rightarrow> 8 word \<Rightarrow> nat" where
  "bwt_count T csa i c = length (filter (\<lambda>j. bwt_char T csa j = c) [0..<i])"

text \<open>
  Modelled from the spec: the alphabet tables built from the text
  (\<open>csa_alphabet_strategy.hpp\<close> is not among the sources). \<open>comp2char\<close> lists the
  characters of the text in increasing order, \<open>char2comp\<close> is its inverse and is 0 on
  every character absent from the text, \<open>C[k]\<close> is the number of text characters
  smaller than the \<open>k\<close>-th compacted symbol, and \<open>C[sigma]\<close> is the text length.
\<close>

definition alphabet_of_text :: "8 word list \<Rightarrow> byte_alphabet \<Rightarrow> bool" where
  "alphabet_of_text T a \<longleftrightarrow>
     sigma a = length (comp2char a) \<and>
     sorted_wrt (<) (comp2char a) \<and> set (comp2char a) = set T \<and>
     (\<forall>k < sigma a. char2comp a (comp2char a ! k) = k) \<and>
     (\<forall>c. c \<notin> set T \<longrightarrow> char2comp a c = 0) \<and>
     length (C a) = sigma a + 1 \<and>
     (\<forall>k < sigma a. C a ! k = length (filter (\<lambda>t. t < comp2char a ! k) T)) \<and>
     C a ! sigma a = length T"

text \<open>
  A CSA of the text \<open>T\<close>: \<open>T\<close> ends with the sentinel 0, which occurs nowhere else;
  the stored SA lists the suffixes of \<open>T\<close> in increasing lexicographic order and the
  stored ISA is its inverse; the alphabet tables are those of \<open>T\<close>; and the size fits
  \<open>size_type\<close>.
\<close>

definition csa_of_text :: "8 word list \<Rightarrow> csa_bitcompressed \<Rightarrow> bool" where
  "csa_of_text T csa \<longleftrightarrow>
     length T = csa_size csa \<and> csa_size csa < 2 ^ 64 \<and>
     sa_isa_inverse csa \<and>
     T \<noteq> [] \<and> last T = 0 \<and> 0 \<notin> set (butlast T) \<and>
     sorted_wrt (<) (map (\<lambda>j. drop (csa_at csa j) T) [0..<csa_size csa]) \<and>
     alphabet_of_text T (m_alphabet csa)"

section \<open>Instances\<close>

text \<open>
  Concrete inputs on which the theorems below are instantiated and the code is run.
\<close>

definition mississippi :: "8 word list" where
  \<comment> \<open>\<open>mississippi$\<close> in ASCII, the sentinel stored as 0\<close>
  "mississippi = [109, 105, 115, 115, 105, 115, 115, 105, 112, 112, 105, 0]"

definition small_csa :: csa_bitcompressed where
  \<comment> \<open>the CSA of \<open>mississippi$\<close>, with \<open>$\<close> stored as 0\<close>
  "small_csa = \<lparr> m_sa = [11, 10, 7, 4, 1, 0, 9, 8, 6, 3, 5, 2],
     m_isa = [5, 4, 11, 9, 3, 10, 8, 2, 7, 6, 1, 0],
     m_alphabet = \<lparr> char2comp = (\<lambda>c. if c = 105 then 1 else if c = 109 then 2
                                     else if c = 112 then 3 else if c = 115 then 4 else 0),
                     comp2char = [0, 105, 109, 112, 115],
                     C = [0, 1, 5, 6, 8, 12], sigma = 5 \<rparr> \<rparr>"

definition unsorted_text :: "8 word list" where
  \<comment> \<open>two equal characters and the sentinel\<close>
  "unsorted_text = [1, 1, 0]"

definition unsorted_csa :: csa_bitcompressed where
  \<comment> \<open>a permutation of \<open>[0, 3)\<close> with its inverse and the alphabet of \<open>unsorted_text\<close>;
      the suffix array of that text would be \<open>[2, 1, 0]\<close>\<close>
  "unsorted_csa = \<lparr> m_sa = [2, 0, 1], m_isa = [1, 2, 0],
     m_alphabet = \<lparr> char2comp = (\<lambda>c. if c = 1 then 1 else 0),
                     comp2char = [0, 1], C = [0, 1, 3], sigma = 2 \<rparr> \<rparr>"

definition bab :: "8 word list" where
  \<comment> \<open>\<open>bab\<close> in ASCII: a text without a sentinel\<close>
  "bab = [98, 97, 98]"

definition bab_csa :: csa_bitcompressed where
  \<comment> \<open>the suffixes \<open>ab\<close>, \<open>b\<close>, \<open>bab\<close> of \<open>bab\<close> in lexicographic order, the inverse
      permutation and the alphabet of \<open>bab\<close>\<close>
  "bab_csa = \<lparr> m_sa = [1, 2, 0], m_isa = [2, 0, 1],
     m_alphabet = \<lparr> char2comp = (\<lambda>c. if c = 98 then 1 else 0),
                     comp2char = [97, 98], C = [0, 1, 3], sigma = 2 \<rparr> \<rparr>"

definition wide_csa :: csa_bitcompressed where
  \<comment> \<open>the CSA of the text \<open>15, 14, \<dots>, 1, 0\<close>: sixteen distinct characters\<close>
  "wide_csa = \<lparr> m_sa = rev [0..<16], m_isa = rev [0..<16],
     m_alphabet = \<lparr> char2comp = (\<lambda>c. if c < 16 then unat c else 0),
                     comp2char = map of_nat [0..<16],
                     C = [0..<17], sigma = 16 \<rparr> \<rparr>"

definition default_csa :: csa_bitcompressed where
  \<comment> \<open>the default-constructed CSA: empty vectors, \<open>sigma = 0\<close>\<close>
  "default_csa = \<lparr> m_sa = [], m_isa = [],
     m_alphabet = \<lparr> char2comp = (\<lambda>c. 0), comp2char = [], C = [], sigma = 0 \<rparr> \<rparr>"

definition two_words :: "64 word list" where
  \<comment> \<open>bits 0, 2 and 63 set in the first word, bits 1 and 63 in the second\<close>
  "two_words = [0x8000000000000005, 0x8000000000000002]"

definition unary_coder :: coder where
  \<comment> \<open>a small coder to instantiate the parameter: \<open>x\<close> as \<open>x - 1\<close> zeros and a one\<close>
  "unary_coder = \<lparr> encoding_length = (\<lambda>x. unat x),
     encode = (\<lambda>x (z, off). (take off z @ replicate (unat x - 1) False @ [True]
                               @ drop (off + unat x) z, off + unat x)) \<rparr>"

definition quiet_world :: io_world where
  \<comment> \<open>no path can be opened, \<open>util::verbose\<close> is off\<close>
  "quiet_world = \<lparr> openable = (\<lambda>f. False), files = Map.empty, verbose = False, cerr = [] \<rparr>"

section \<open>Theorems\<close>

subsection \<open>\<open>psi\<close> and \<open>lf\<close>\<close>

lemma all_less_upt: "(\<forall>i<n. P i) \<longleftrightarrow> list_all P [0..<n]"
  by (auto simp: list_all_iff)

lemma sa_isa_inverse_inj:
  assumes "sa_isa_inverse csa"
  shows "inj_on (\<lambda>i. m_sa csa ! i) {..<length (m_sa csa)}"
proof (rule inj_onI)
  fix x y
  assume x: "x \<in> {..<length (m_sa csa)}" and y: "y \<in> {..<length (m_sa csa)}"
    and eq: "m_sa csa ! x = m_sa csa ! y"
  from assms have inv: "\<forall>i < length (m_sa csa). m_isa csa ! (m_sa csa ! i) = i"
    by (simp add: sa_isa_inverse_def)
  from inv x have "x = m_isa csa ! (m_sa csa ! x)" by simp
  also have "\<dots> = m_isa csa ! (m_sa csa ! y)" by (simp only: eq)
  also from inv y have "\<dots> = y" by simp
  finally show "x = y" .
qed

lemma sa_isa_inverse_surj:
  assumes "sa_isa_inverse csa" and "k < length (m_sa csa)"
  shows "\<exists>i < length (m_sa csa). m_sa csa ! i = k"
proof -
  let ?n = "length (m_sa csa)"
  let ?f = "\<lambda>i. m_sa csa ! i"
  have sub: "?f ` {..<?n} \<subseteq> {..<?n}"
    using assms(1) by (auto simp: sa_isa_inverse_def)
  have "card (?f ` {..<?n}) = card {..<?n}"
    using sa_isa_inverse_inj [OF assms(1)] by (rule card_image)
  with sub have "?f ` {..<?n} = {..<?n}"
    by (intro card_subset_eq) simp_all
  with assms(2) have "k \<in> ?f ` {..<?n}" by simp
  then show ?thesis by auto
qed

lemma isa_range:
  assumes "sa_isa_inverse csa" and "k < csa_size csa"
  shows "isa csa k < csa_size csa" and "csa_at csa (isa csa k) = k"
proof -
  from sa_isa_inverse_surj [of csa k] assms
  obtain i where i: "i < length (m_sa csa)" "m_sa csa ! i = k"
    by (auto simp: csa_size_def)
  with assms(1) have "m_isa csa ! k = i" by (auto simp: sa_isa_inverse_def)
  with i show "isa csa k < csa_size csa" and "csa_at csa (isa csa k) = k"
    by (simp_all add: isa_def csa_size_def csa_at_def)
qed

lemma isa_sa:
  assumes "sa_isa_inverse csa" and "i < csa_size csa"
  shows "isa csa (csa_at csa i) = i" and "csa_at csa i < csa_size csa"
  using assms by (simp_all add: sa_isa_inverse_def isa_def csa_at_def csa_size_def)

lemma mod_succ_pred:
  fixes n :: nat
  assumes "s < n"
  shows "((s + 1) mod n + n - 1) mod n = s" and "((s + n - 1) mod n + 1) mod n = s"
proof -
  show "((s + 1) mod n + n - 1) mod n = s"
  proof (cases "s + 1 = n")
    case True
    then have "n = Suc s" by simp
    then show ?thesis by simp
  next
    case False
    with assms have "s + 1 < n" by simp
    then have "((s + 1) mod n + n - 1) mod n = (s + n) mod n" by simp
    then show ?thesis using assms by simp
  qed
  show "((s + n - 1) mod n + 1) mod n = s"
  proof (cases s)
    case 0
    from assms obtain m where "n = Suc m" by (cases n) simp_all
    with 0 show ?thesis by simp
  next
    case (Suc t)
    have "(Suc t + n - 1) mod n = (t + n) mod n" by simp
    also have "\<dots> = t" using assms Suc by simp
    finally show ?thesis using assms Suc by simp
  qed
qed

lemma psi_range:
  assumes "sa_isa_inverse csa" and "i < csa_size csa"
  shows "psi csa i < csa_size csa"
  using assms by (simp add: psi_def isa_range(1))

lemma lf_range:
  assumes "sa_isa_inverse csa" and "i < csa_size csa"
  shows "lf csa i < csa_size csa"
  using assms by (simp add: lf_def isa_range(1))

lemma lf_psi:
  assumes "sa_isa_inverse csa" and "i < csa_size csa"
  shows "lf csa (psi csa i) = i"
proof -
  let ?n = "csa_size csa"
  have n: "0 < ?n" using assms(2) by simp
  have s: "csa_at csa i < ?n" using assms by (rule isa_sa(2))
  have "csa_at csa (psi csa i) = (csa_at csa i + 1) mod ?n"
    unfolding psi_def using assms(1) n by (intro isa_range(2)) simp_all
  then have "lf csa (psi csa i) = isa csa (((csa_at csa i + 1) mod ?n + ?n - 1) mod ?n)"
    by (simp add: lf_def)
  also have "\<dots> = isa csa (csa_at csa i)"
    using mod_succ_pred(1) [OF s] by simp
  also have "\<dots> = i" using assms by (rule isa_sa(1))
  finally show ?thesis .
qed

lemma psi_lf:
  assumes "sa_isa_inverse csa" and "i < csa_size csa"
  shows "psi csa (lf csa i) = i"
proof -
  let ?n = "csa_size csa"
  have n: "0 < ?n" using assms(2) by simp
  have s: "csa_at csa i < ?n" using assms by (rule isa_sa(2))
  have "csa_at csa (lf csa i) = (csa_at csa i + ?n - 1) mod ?n"
    unfolding lf_def using assms(1) n by (intro isa_range(2)) simp_all
  then have "psi csa (lf csa i) = isa csa (((csa_at csa i + ?n - 1) mod ?n + 1) mod ?n)"
    by (simp add: psi_def)
  also have "\<dots> = isa csa (csa_at csa i)"
    using mod_succ_pred(2) [OF s] by simp
  also have "\<dots> = i" using assms by (rule isa_sa(1))
  finally show ?thesis .
qed

text \<open>
  C1. In a \<open>csa_bitcompressed\<close> of size \<open>n\<close> whose stored SA is a permutation of
  \<open>[0, n)\<close> and whose stored ISA is its inverse, \<open>lf[psi[i]] = i\<close> and
  \<open>psi[lf[i]] = i\<close> for every \<open>i < n\<close>, with \<open>psi[i] = isa[(sa[i] + 1) mod n]\<close> and
  \<open>lf[i] = isa[(sa[i] + n - 1) mod n]\<close>.
\<close>

theorem psi_lf_mutual_inverse:
  assumes "sa_isa_inverse csa" and "i < csa_size csa"
  shows "lf csa (psi csa i) = i \<and> psi csa (lf csa i) = i"
  using lf_psi [OF assms] psi_lf [OF assms] by simp

lemma small_csa_inverse: "sa_isa_inverse small_csa"
  unfolding sa_isa_inverse_def small_csa_def all_less_upt
  by simp

theorem psi_lf_mutual_inverse_witness:
  "sa_isa_inverse small_csa \<and> 3 < csa_size small_csa \<and>
   psi small_csa 3 = 10 \<and>
   lf small_csa (psi small_csa 3) = 3 \<and> psi small_csa (lf small_csa 3) = 3"
proof -
  have sz: "3 < csa_size small_csa"
    by (simp add: csa_size_def small_csa_def)
  have "psi small_csa 3 = 10"
    by (simp add: psi_def isa_def csa_at_def csa_size_def small_csa_def)
  with psi_lf_mutual_inverse [OF small_csa_inverse sz] small_csa_inverse sz
  show ?thesis by simp
qed

subsection \<open>\<open>traverse_csa_saisa::empty\<close>\<close>

text \<open>
  C9 (fails on the code). The claim is that \<open>empty()\<close> of the view
  \<open>traverse_csa_saisa\<close> terminates with the host's \<open>empty()\<close>. As written the member
  calls itself and never returns, for every host; the sibling view
  \<open>traverse_csa_psi\<close> does return the host's value.
\<close>

theorem traverse_csa_saisa_empty_never_returns:
  "traverse_csa_saisa_empty v = None \<and>
   traverse_csa_psi_empty v = Some (csa_empty (view_m_csa v)) \<and>
   traverse_csa_saisa_empty \<lparr> view_m_csa = default_csa \<rparr> \<noteq> Some (csa_empty default_csa)"
proof -
  have none: "traverse_csa_saisa_empty x = None" for x
  proof (induction arbitrary: x rule: traverse_csa_saisa_empty.fixp_induct)
    case 1
    show ?case by (rule option_admissible [of "\<lambda>x y. False", simplified])
  qed simp_all
  then show ?thesis by (simp add: traverse_csa_psi_empty_def)
qed

subsection \<open>Equality of \<open>vlc_vector\<close>\<close>

text \<open>
  C10 (fails on the code). The claim is that \<open>v == v\<close> holds for every
  \<open>vlc_vector\<close>, the empty one included. The operator tests \<open>m_size && v.m_size\<close>
  where the sizes were to be compared, so \<open>v == v\<close> holds exactly when \<open>v\<close> is not
  empty: the default-constructed vector is unequal to itself.
\<close>

theorem vlc_eq_empty_not_reflexive:
  "vlc_eq v v = (m_size v \<noteq> 0) \<and>
   vlc_eq vlc_default vlc_default = False \<and> vlc_neq vlc_default vlc_default = True"
  by (simp add: vlc_eq_def vlc_neq_def vlc_default_def)

subsection \<open>\<open>store_to_file\<close> on a stream that cannot be opened\<close>

text \<open>
  C8 (fails on the code). The claim is that every overload returns \<open>false\<close> when the
  output stream cannot be opened. The generic overload does. The \<open>char const *\<close> and
  \<open>std::string\<close> overloads return \<open>false\<close> only when \<open>util::verbose\<close> is set; with
  it off they fall through, write nothing and return \<open>true\<close>.
\<close>

theorem store_to_file_unopened_returns_true:
  "fst (store_to_file_cstr ''abc'' ''/nonexistent/out.sdsl'' quiet_world) = True \<and>
   fst (store_to_file_string ''abc'' ''/nonexistent/out.sdsl'' quiet_world) = True \<and>
   files (snd (store_to_file_cstr ''abc'' ''/nonexistent/out.sdsl'' quiet_world))
     ''/nonexistent/out.sdsl'' = None \<and>
   fst (store_to_file_generic serialize t ''/nonexistent/out.sdsl'' quiet_world) = False"
  by (simp add: store_to_file_cstr_def store_to_file_string_def store_to_file_generic_def
      write_file_def quiet_world_def)

subsection \<open>Construction of a \<open>vlc_vector\<close>\<close>

lemma elem_succ_less_1_iff:
  fixes x :: "'a::len word"
  shows "elem_succ_less_1 x \<longleftrightarrow> 32 \<le> LENGTH('a) \<and> x + 1 = 0"
proof (cases "LENGTH('a) < 32")
  case True
  have "0 \<le> uint x" by simp
  then have "\<not> uint x + 1 < 1" by linarith
  with True show ?thesis by (simp add: elem_succ_less_1_def)
next
  case False
  then show ?thesis by (simp add: elem_succ_less_1_def word_less_1)
qed

lemma elem_succ_64:
  fixes x :: "64 word"
  shows "elem_succ x = x + 1"
  by (simp add: elem_succ_def)

lemma size_of_z_Inl:
  fixes c :: "'a::len word list"
  shows "(\<exists>e. size_of_z cd c a = Inl e) \<longleftrightarrow> (\<exists>x\<in>set c. 32 \<le> LENGTH('a) \<and> x + 1 = 0)"
  by (induction c arbitrary: a) (auto simp: elem_succ_less_1_iff)

lemma size_of_z_error:
  "size_of_z cd c a = Inl e \<Longrightarrow> e = Logic_error ''vlc_vector cannot decode values smaller than 1!''"
  by (induction c arbitrary: a) (auto split: if_splits)

lemma encoded_write_z:
  "encoded (write_z cd dens c s) = encoded s @ map elem_succ c"
  by (induction c arbitrary: s) (simp_all add: Let_def)

lemma build_vlc_cases:
  fixes c :: "'a::len word list"
  shows "(\<exists>x\<in>set c. 32 \<le> LENGTH('a) \<and> x + 1 = 0) \<Longrightarrow>
     build_vlc cd dens c = ([], Inl (Logic_error ''vlc_vector cannot decode values smaller than 1!''))"
    and "(\<forall>x\<in>set c. \<not> (32 \<le> LENGTH('a) \<and> x + 1 = 0)) \<Longrightarrow>
     \<exists>v. build_vlc cd dens c = (map elem_succ c, Inr v) \<and> m_size v = length c"
proof -
  assume "\<exists>x\<in>set c. 32 \<le> LENGTH('a) \<and> x + 1 = 0"
  then obtain e where e: "size_of_z cd c 0 = Inl e" using size_of_z_Inl [of cd c 0] by blast
  then show "build_vlc cd dens c = ([], Inl (Logic_error ''vlc_vector cannot decode values smaller than 1!''))"
    using size_of_z_error [OF e] by (simp add: build_vlc_def)
next
  assume "\<forall>x\<in>set c. \<not> (32 \<le> LENGTH('a) \<and> x + 1 = 0)"
  then have "\<not> (\<exists>e. size_of_z cd c 0 = Inl e)" using size_of_z_Inl [of cd c 0] by blast
  then obtain t where "size_of_z cd c 0 = Inr t" by (cases "size_of_z cd c 0") auto
  then show "\<exists>v. build_vlc cd dens c = (map elem_succ c, Inr v) \<and> m_size v = length c"
    by (simp add: build_vlc_def Let_def encoded_write_z)
qed

lemma vlc_vector_from_container_cases:
  fixes c :: "'a::len word list"
  shows "(\<exists>x\<in>set c. 32 \<le> LENGTH('a) \<and> x + 1 = 0) \<Longrightarrow>
     vlc_vector_from_container cd dens c =
       ([], Inl (Logic_error ''vlc_vector cannot decode values smaller than 1!''))"
    and "(\<forall>x\<in>set c. \<not> (32 \<le> LENGTH('a) \<and> x + 1 = 0)) \<Longrightarrow>
     \<exists>v. vlc_vector_from_container cd dens c = (map elem_succ c, Inr v) \<and> m_size v = length c"
proof -
  assume a: "\<exists>x\<in>set c. 32 \<le> LENGTH('a) \<and> x + 1 = 0"
  then have "c \<noteq> []" by auto
  then show "vlc_vector_from_container cd dens c =
       ([], Inl (Logic_error ''vlc_vector cannot decode values smaller than 1!''))"
    using build_vlc_cases(1) [OF a] by (simp add: vlc_vector_from_container_def)
next
  assume a: "\<forall>x\<in>set c. \<not> (32 \<le> LENGTH('a) \<and> x + 1 = 0)"
  show "\<exists>v. vlc_vector_from_container cd dens c = (map elem_succ c, Inr v) \<and> m_size v = length c"
  proof (cases "c = []")
    case True
    then show ?thesis by (simp add: vlc_vector_from_container_def vlc_default_def)
  next
    case False
    then show ?thesis
      using build_vlc_cases(2) [OF a] by (simp add: vlc_vector_from_container_def)
  qed
qed

lemma vlc_vector_from_buffer_cases:
  "(\<exists>x\<in>set v_buf. x + 1 = 0) \<Longrightarrow>
     vlc_vector_from_buffer cd dens v_buf =
       ([], Inl (Logic_error ''vlc_vector cannot decode values smaller than 1!''))"
  "(\<forall>x\<in>set v_buf. x + 1 \<noteq> 0) \<Longrightarrow>
     \<exists>v. vlc_vector_from_buffer cd dens v_buf = (map (\<lambda>x. x + 1) v_buf, Inr v) \<and>
         m_size v = length v_buf"
proof -
  have m: "map elem_succ v_buf = map (\<lambda>x. x + 1) v_buf"
    by (simp add: elem_succ_64)
  {
    assume a: "\<exists>x\<in>set v_buf. x + 1 = 0"
    then have ne: "v_buf \<noteq> []" by auto
    from a have "\<exists>x\<in>set v_buf. 32 \<le> LENGTH(64) \<and> x + 1 = 0" by simp
    from build_vlc_cases(1) [OF this] ne
    show "vlc_vector_from_buffer cd dens v_buf =
       ([], Inl (Logic_error ''vlc_vector cannot decode values smaller than 1!''))"
      by (simp add: vlc_vector_from_buffer_def)
  next
    assume a: "\<forall>x\<in>set v_buf. x + 1 \<noteq> 0"
    then have b: "\<forall>x\<in>set v_buf. \<not> (32 \<le> LENGTH(64) \<and> x + 1 = 0)" by simp
    show "\<exists>v. vlc_vector_from_buffer cd dens v_buf = (map (\<lambda>x. x + 1) v_buf, Inr v) \<and>
         m_size v = length v_buf"
    proof (cases "v_buf = []")
      case True
      then show ?thesis by (simp add: vlc_vector_from_buffer_def vlc_default_def)
    next
      case False
      then show ?thesis
        using build_vlc_cases(2) [OF b, of cd dens] m by (simp add: vlc_vector_from_buffer_def)
    qed
  }
qed

text \<open>
  C7 (amended). \<open>vlc_vector(Container const & c)\<close> throws \<open>std::logic_error\<close> exactly
  when some element \<open>x\<close> has \<open>x + 1 = 0\<close> in the arithmetic C++ evaluates \<open>c[i] + 1\<close>
  in: that of the element type when it is an unsigned type of 32 bits or more
  (\<open>uint32_t\<close> wraps at \<open>2^32\<close>, \<open>uint64_t\<close> at \<open>2^64\<close>), while an element type
  narrower than \<open>int\<close> is promoted and never throws.
  \<open>vlc_vector(int_vector_buffer<int_width> & v_buf)\<close> throws exactly when some element
  has \<open>x + 1 = 0\<close> in 64-bit arithmetic. In both the throw comes before anything is
  encoded (the list of encoded values is empty) and yields no object; without such an
  element construction succeeds, every \<open>x + 1\<close> is encoded in order, and \<open>size()\<close> is
  the number of elements. This holds for every coder and sampling density.
\<close>

theorem vlc_vector_constructor_throws_iff:
  fixes c :: "'a::len word list" and v_buf :: "64 word list"
  defines "thrown \<equiv> ([], Inl (Logic_error ''vlc_vector cannot decode values smaller than 1!''))"
  shows "((\<exists>x\<in>set c. 32 \<le> LENGTH('a) \<and> x + 1 = 0) \<longrightarrow>
            vlc_vector_from_container cd dens c = thrown) \<and>
         ((\<forall>x\<in>set c. \<not> (32 \<le> LENGTH('a) \<and> x + 1 = 0)) \<longrightarrow>
            (\<exists>v. vlc_vector_from_container cd dens c = (map elem_succ c, Inr v) \<and>
                 m_size v = length c)) \<and>
         ((\<exists>x\<in>set v_buf. x + 1 = 0) \<longrightarrow>
            vlc_vector_from_buffer cd dens v_buf = thrown) \<and>
         ((\<forall>x\<in>set v_buf. x + 1 \<noteq> 0) \<longrightarrow>
            (\<exists>v. vlc_vector_from_buffer cd dens v_buf = (map (\<lambda>x. x + 1) v_buf, Inr v) \<and>
                 m_size v = length v_buf))"
  unfolding thrown_def
  using vlc_vector_from_container_cases [of c cd dens]
    vlc_vector_from_buffer_cases [of v_buf cd dens]
  by blast

theorem vlc_vector_constructor_throws_iff_witness:
  "(\<exists>x\<in>set [3, 0xFFFFFFFF, 5 :: 32 word]. 32 \<le> LENGTH(32) \<and> x + 1 = 0) \<and>
   vlc_vector_from_container unary_coder 128 [3, 0xFFFFFFFF, 5 :: 32 word] =
     ([], Inl (Logic_error ''vlc_vector cannot decode values smaller than 1!'')) \<and>
   \<not> (\<exists>x\<in>set [3, 0xFFFF, 5 :: 16 word]. 32 \<le> LENGTH(16) \<and> x + 1 = 0) \<and>
   (\<exists>v. vlc_vector_from_container unary_coder 128 [3, 0xFFFF, 5 :: 16 word] =
          ([4, 0x10000, 6], Inr v) \<and>
        m_size v = length [3, 0xFFFF, 5 :: 16 word]) \<and>
   (\<exists>x\<in>set [3, 0xFFFFFFFFFFFFFFFF, 5 :: 64 word]. x + 1 = 0) \<and>
   vlc_vector_from_buffer unary_coder 128 [3, 0xFFFFFFFFFFFFFFFF, 5] =
     ([], Inl (Logic_error ''vlc_vector cannot decode values smaller than 1!'')) \<and>
   \<not> (\<exists>x\<in>set [3, 0xFFFFFFFF, 5 :: 64 word]. x + 1 = 0) \<and>
   (\<exists>v. vlc_vector_from_buffer unary_coder 128 [3, 0xFFFFFFFF, 5] =
          ([4, 0x100000000, 6], Inr v) \<and>
        m_size v = length [3, 0xFFFFFFFF, 5 :: 64 word])"
proof -
  have a: "\<exists>x\<in>set [3, 0xFFFFFFFF, 5 :: 32 word]. 32 \<le> LENGTH(32) \<and> x + 1 = 0" by simp
  have b: "\<forall>x\<in>set [3, 0xFFFF, 5 :: 16 word]. \<not> (32 \<le> LENGTH(16) \<and> x + 1 = 0)" by simp
  have c: "\<exists>x\<in>set [3, 0xFFFFFFFFFFFFFFFF, 5 :: 64 word]. x + 1 = 0" by simp
  have d: "\<forall>x\<in>set [3, 0xFFFFFFFF, 5 :: 64 word]. x + 1 \<noteq> 0" by simp
  have e: "map elem_succ [3, 0xFFFF, 5 :: 16 word] = [4, 0x10000, 6]"
    by (simp add: elem_succ_def)
  show ?thesis
    using a b c d e
      vlc_vector_constructor_throws_iff
        [of "[3, 0xFFFFFFFF, 5 :: 32 word]" unary_coder 128 "[3, 0xFFFFFFFFFFFFFFFF, 5]"]
      vlc_vector_constructor_throws_iff
        [of "[3, 0xFFFF, 5 :: 16 word]" unary_coder 128 "[3, 0xFFFFFFFF, 5]"]
    by simp
qed

text \<open>
  The claim as the specification has it measures \<open>x + 1 = 0\<close> in 64-bit arithmetic for
  every container. A \<open>std::vector<uint32_t>\<close> holding \<open>0xFFFFFFFF\<close> makes the
  container constructor throw, although no element, taken as a 64-bit value, has
  \<open>x + 1 = 0\<close>.
\<close>

theorem vlc_vector_container_narrow_counterexample:
  "vlc_vector_from_container unary_coder 128 [3, 0xFFFFFFFF, 5 :: 32 word] =
     ([], Inl (Logic_error ''vlc_vector cannot decode values smaller than 1!'')) \<and>
   \<not> (\<exists>x\<in>set [3, 0xFFFFFFFF, 5 :: 32 word]. (ucast x :: 64 word) + 1 = 0)"
  by (simp add: vlc_vector_from_container_def build_vlc_def elem_succ_less_1_def
      elem_succ_def unary_coder_def)

subsection \<open>\<open>word_rank\<close> for the pattern \<open>10\<close>\<close>

lemma bit_push1:
  fixes x :: "64 word"
  assumes "t < 64"
  shows "bit (push_bit 1 x) t \<longleftrightarrow> 0 < t \<and> bit x (t - 1)"
proof -
  have "bit (push_bit 1 x) t \<longleftrightarrow> 1 \<le> t \<and> possible_bit TYPE(64 word) t \<and> bit x (t - 1)"
    by (rule bit_push_bit_iff)
  then show ?thesis using assms by (simp add: possible_bit_word Suc_le_eq)
qed

lemma bit_map10:
  fixes x c :: "64 word"
  assumes "t < 64" and "\<forall>k. 0 < k \<longrightarrow> \<not> bit c k"
  shows "bit (map10 x c) t \<longleftrightarrow> \<not> bit x t \<and> (if t = 0 then bit c 0 else bit x (t - 1))"
proof -
  have "bit (map10 x c) t \<longleftrightarrow> (bit x t \<noteq> (bit (push_bit 1 x) t \<or> bit c t)) \<and> \<not> bit x t"
    using assms(1) unfolding map10_def
    by (simp only: bit_and_iff bit_xor_iff bit_or_iff bit_not_iff) simp
  also have "\<dots> \<longleftrightarrow> \<not> bit x t \<and> (if t = 0 then bit c 0 else bit x (t - 1))"
    using assms(2) by (auto simp only: bit_push1 [OF assms(1)] split: if_splits)
  finally show ?thesis .
qed

lemma filter_bit_and_mask:
  fixes x :: "64 word"
  assumes "r \<le> 64"
  shows "filter (bit (x AND mask r)) [0..<64] = filter (bit x) [0..<r]"
proof -
  from assms have "64 = r + (64 - r)" by simp
  then have "[0..<64] = [0..<r] @ [r..<r + (64 - r)]"
    using upt_add_eq_append [of 0 r "64 - r"] by simp
  then have split: "[0..<64] = [0..<r] @ [r..<64]" using assms by simp
  have "filter (bit (x AND mask r)) [0..<r] = filter (bit x) [0..<r]"
    by (rule filter_cong) (auto simp: bit_simps dest: bit_imp_le_length)
  moreover have "filter (bit (x AND mask r)) [r..<64] = []"
    by (simp add: filter_empty_conv bit_simps)
  ultimately show ?thesis by (simp only: split filter_append) simp
qed

lemma cnt_and_lo_set:
  "r \<le> 64 \<Longrightarrow> cnt (x AND lo_set r) = length (filter (bit x) [0..<r])"
  by (simp only: cnt_def lo_set_def filter_bit_and_mask)

lemma carry_high_bits:
  fixes v :: "64 word"
  shows "\<forall>k. 0 < k \<longrightarrow> \<not> bit (drop_bit 63 v) k"
  by (auto simp: bit_simps dest: bit_imp_le_length)

lemma bit_at_in_word:
  "t < 64 \<Longrightarrow> bit_at data (64 * q + t) = bit (data ! q) t"
  by (simp add: bit_at_def)

lemma occ10_in_word:
  assumes "t < 64"
  shows "occ10 data (64 * q + t) \<longleftrightarrow>
         \<not> bit (data ! q) t \<and>
         (if t = 0 then 0 < q \<and> bit (data ! (q - 1)) 63 else bit (data ! q) (t - 1))"
proof (cases t)
  case 0
  show ?thesis
  proof (cases q)
    case 0
    with \<open>t = 0\<close> show ?thesis by (simp add: occ10_def bit_at_def)
  next
    case (Suc p)
    have "64 * q + t - 1 = 64 * p + 63" using Suc \<open>t = 0\<close> by simp
    then have "bit_at data (64 * q + t - 1) = bit (data ! p) 63"
      by (simp only: bit_at_in_word)
    moreover have "bit_at data (64 * q + t) = bit (data ! q) t"
      using assms by (rule bit_at_in_word)
    ultimately show ?thesis using Suc \<open>t = 0\<close> by (simp add: occ10_def)
  qed
next
  case (Suc u)
  have "64 * q + t - 1 = 64 * q + u" using Suc by simp
  moreover have "u < 64" using assms Suc by simp
  ultimately have "bit_at data (64 * q + t - 1) = bit (data ! q) u"
    by (simp only: bit_at_in_word)
  moreover have "bit_at data (64 * q + t) = bit (data ! q) t"
    using assms by (rule bit_at_in_word)
  ultimately show ?thesis using Suc by (simp add: occ10_def)
qed

lemma count10_in_word:
  assumes "r \<le> 64"
  shows "count10 data (64 * q) (64 * q + r) =
         length (filter (\<lambda>t. occ10 data (64 * q + t)) [0..<r])"
proof -
  have "[64 * q..<64 * q + r] = map (\<lambda>t. 64 * q + t) [0..<r]"
    by (simp add: map_add_upt add.commute)
  then show ?thesis by (simp add: count10_def filter_map comp_def)
qed

text \<open>
  C6. For a bit sequence stored in 64-bit words and an index \<open>idx\<close> whose word exists,
  \<open>rank_support_trait<10,2>::word_rank(data, idx)\<close> is the number of occurrences of
  the pattern \<open>10\<close> registered in the bits \<open>[64 * (idx div 64), idx)\<close>. An occurrence
  at the first bit of a word takes the last bit of the preceding word as its carry;
  in the first word (\<open>idx \<le> 63\<close>) the carry is 0, which is \<open>init_carry()\<close>.
\<close>

theorem word_rank_10_counts_pattern:
  assumes "idx div 64 < length data"
  shows "word_rank_10 data idx = Some (count10 data (64 * (idx div 64)) idx) \<and>
         (idx \<le> 63 \<longrightarrow>
            word_rank_10 data idx =
              Some (cnt (map10 (data ! 0) init_carry_10 AND lo_set idx)))"
proof -
  define q where "q = idx div 64"
  define r where "r = idx mod 64"
  define carry :: "64 word"
    where "carry = (if idx > 63 then drop_bit 63 (data ! (q - 1)) else 0)"
  have sum: "64 * q + r = idx" and r: "r < 64" by (simp_all add: q_def r_def)
  have hi: "\<forall>k. 0 < k \<longrightarrow> \<not> bit carry k"
    using carry_high_bits by (simp add: carry_def)
  have c0: "bit carry 0 \<longleftrightarrow> 0 < q \<and> bit (data ! (q - 1)) 63"
  proof (cases "idx > 63")
    case True
    then have "0 < q" by (simp add: q_def)
    with True show ?thesis by (simp add: carry_def bit_simps)
  next
    case False
    then have "q = 0" by (simp add: q_def)
    with False show ?thesis by (simp add: carry_def)
  qed
  have "word_rank_10 data idx = Some (cnt (map10 (data ! q) carry AND lo_set r))"
    using assms unfolding word_rank_10_def q_def r_def carry_def Let_def by simp
  also have "cnt (map10 (data ! q) carry AND lo_set r) =
             length (filter (bit (map10 (data ! q) carry)) [0..<r])"
    using r by (simp add: cnt_and_lo_set)
  also have "filter (bit (map10 (data ! q) carry)) [0..<r] =
             filter (\<lambda>t. occ10 data (64 * q + t)) [0..<r]"
  proof (rule filter_cong [OF refl])
    fix t assume "t \<in> set [0..<r]"
    with r have t: "t < 64" by simp
    show "bit (map10 (data ! q) carry) t = occ10 data (64 * q + t)"
      unfolding bit_map10 [OF t hi] occ10_in_word [OF t] c0 ..
  qed
  also have "length \<dots> = count10 data (64 * q) (64 * q + r)"
    using r by (simp add: count10_in_word)
  finally have "word_rank_10 data idx = Some (count10 data (64 * q) (64 * q + r))" .
  then have main: "word_rank_10 data idx = Some (count10 data (64 * (idx div 64)) idx)"
    unfolding sum unfolding q_def .
  have "word_rank_10 data idx = Some (cnt (map10 (data ! 0) init_carry_10 AND lo_set idx))"
    if "idx \<le> 63"
    using that assms by (simp add: word_rank_10_def init_carry_10_def)
  with main show ?thesis by blast
qed

theorem word_rank_10_counts_pattern_witness:
  "67 div 64 < length two_words \<and>
   word_rank_10 two_words 67 = Some 2 \<and> count10 two_words 64 67 = 2 \<and>
   3 div 64 < length two_words \<and> (3::nat) \<le> 63 \<and>
   word_rank_10 two_words 3 = Some 1 \<and> count10 two_words 0 3 = 1 \<and>
   cnt (map10 (two_words ! 0) init_carry_10 AND lo_set 3) = 1"
proof -
  have a: "67 div 64 < length two_words" and b: "3 div 64 < length two_words"
    by (simp_all add: two_words_def)
  have c: "count10 two_words 64 67 = 2" by code_simp
  have d: "count10 two_words 0 3 = 1" by code_simp
  have e: "cnt (map10 (two_words ! 0) init_carry_10 AND lo_set 3) = 1" by code_simp
  show ?thesis
    using a b c d e word_rank_10_counts_pattern [OF a] word_rank_10_counts_pattern [OF b]
    by simp
qed

subsection \<open>\<open>select\<close> by scanning\<close>

lemma nth_filter_upt:
  assumes "k < length (filter P [0..<m])"
  shows "filter P [0..<m] ! k < m \<and> P (filter P [0..<m] ! k) \<and>
         length (filter P [0..<filter P [0..<m] ! k]) = k"
  using assms
proof (induction m)
  case 0
  then show ?case by simp
next
  case (Suc m)
  let ?xs = "filter P [0..<m]"
  show ?case
  proof (cases "k < length ?xs")
    case True
    then have "filter P [0..<Suc m] ! k = ?xs ! k" by (simp add: nth_append)
    with Suc.IH [OF True] show ?thesis by (simp add: less_SucI)
  next
    case False
    with Suc.prems have pm: "P m" and k: "k = length ?xs"
      by (auto split: if_splits)
    then have "filter P [0..<Suc m] ! k = m" by simp
    with pm k show ?thesis by simp
  qed
qed

lemma cnt_le_64: "cnt w \<le> 64"
proof -
  have "length (filter (bit w) [0..<64]) \<le> length [0..<64]" by (rule length_filter_le)
  then show ?thesis by (simp add: cnt_def)
qed

lemma uint32_cast_small:
  assumes "k \<le> cnt w"
  shows "k mod 2 ^ 32 = k"
proof -
  from assms cnt_le_64 [of w] have "k \<le> 64" by simp
  then show ?thesis by simp
qed

lemma sel_position:
  assumes "1 \<le> k" and "k \<le> cnt w"
  shows "\<exists>p < 64. sel w k = Some p \<and> bit w p \<and> length (filter (bit w) [0..<p]) = k - 1"
proof -
  from assms have "k - 1 < length (filter (bit w) [0..<64])" by (simp add: cnt_def)
  from nth_filter_upt [OF this] assms show ?thesis by (simp add: sel_def)
qed

lemma bit_at_Cons_low: "j < 64 \<Longrightarrow> bit_at (w # ws) j = bit w j"
  by (simp add: bit_at_def)

lemma bit_at_Cons_high: "bit_at (w # ws) (64 + j) = bit_at ws j"
proof -
  have "(64 + j) div 64 = Suc (j div 64)" "(64 + j) mod 64 = j mod 64" by simp_all
  then show ?thesis by (simp only: bit_at_def nth_Cons_Suc)
qed

lemma rank1_Cons_low:
  assumes "p \<le> 64"
  shows "rank1 (w # ws) p = length (filter (bit w) [0..<p])"
proof -
  have "filter (bit_at (w # ws)) [0..<p] = filter (bit w) [0..<p]"
    using assms by (intro filter_cong refl) (simp add: bit_at_Cons_low)
  then show ?thesis by (simp add: rank1_def)
qed

lemma rank1_Cons_high: "rank1 (w # ws) (64 + p) = cnt w + rank1 ws p"
proof -
  have "[0..<64 + p] = [0..<64] @ map (\<lambda>j. 64 + j) [0..<p]"
    using upt_add_eq_append [of 0 64 p] by (simp add: map_add_upt add.commute)
  then have "rank1 (w # ws) (64 + p) =
             rank1 (w # ws) 64 + length (filter (\<lambda>j. bit_at (w # ws) (64 + j)) [0..<p])"
    by (simp add: rank1_def filter_map comp_def)
  moreover have "rank1 (w # ws) 64 = cnt w"
    by (simp add: rank1_Cons_low cnt_def)
  ultimately show ?thesis
    by (simp only: bit_at_Cons_high rank1_def)
qed

lemma rank1_mono: "p \<le> p' \<Longrightarrow> rank1 data p \<le> rank1 data p'"
proof -
  assume "p \<le> p'"
  then have "[0..<p'] = [0..<p] @ [p..<p']"
    using upt_add_eq_append [of 0 p "p' - p"] by simp
  then show ?thesis by (simp add: rank1_def)
qed

lemma rank1_all: "rank1 ws (64 * length ws) = sum_list (map cnt ws)"
proof (induction ws)
  case Nil
  then show ?case by (simp add: rank1_def)
next
  case (Cons w ws)
  have "64 * length (w # ws) = 64 + 64 * length ws" by simp
  with Cons show ?case by (simp only: rank1_Cons_high) simp
qed

lemma select_loop_finds:
  assumes "sum_args < i" and "i \<le> sum_args + sum_list (map cnt (w # rest))"
  shows "\<exists>q. select_loop w rest i sum_args (cnt w) word_pos oc c = Some (64 * word_pos + q) \<and>
             bit_at (w # rest) q \<and> rank1 (w # rest) q = i - sum_args - 1"
  using assms
proof (induction rest arbitrary: w sum_args word_pos oc)
  case Nil
  then have k: "1 \<le> i - sum_args" "i - sum_args \<le> cnt w" by simp_all
  then have small: "(i - sum_args) mod 2 ^ 32 = i - sum_args"
    by (intro uint32_cast_small)
  from sel_position [OF k] obtain p where p: "p < 64" "sel w (i - sum_args) = Some p"
    "bit w p" "length (filter (bit w) [0..<p]) = i - sum_args - 1" by auto
  have "select_loop w [] i sum_args (cnt w) word_pos oc c = Some (64 * word_pos + p)"
    using Nil p small by (simp add: ith_arg_pos_in_the_word_def push_bit_eq_mult)
  with p show ?case by (auto simp: bit_at_Cons_low rank1_Cons_low)
next
  case (Cons w' rest')
  show ?case
  proof (cases "sum_args + cnt w < i")
    case True
    have "i \<le> (sum_args + cnt w) + sum_list (map cnt (w' # rest'))"
      using Cons.prems by simp
    from Cons.IH [OF True this, of "Suc word_pos" c]
    obtain q where q: "select_loop w' rest' i (sum_args + cnt w) (cnt w') (Suc word_pos) c c =
        Some (64 * Suc word_pos + q)" "bit_at (w' # rest') q"
      "rank1 (w' # rest') q = i - (sum_args + cnt w) - 1" by auto
    have "select_loop w (w' # rest') i sum_args (cnt w) word_pos oc c =
          Some (64 * word_pos + (64 + q))"
      using True q(1) by (simp add: args_in_the_word_def)
    moreover have "bit_at (w # w' # rest') (64 + q)" using q(2) by (simp only: bit_at_Cons_high)
    moreover have "rank1 (w # w' # rest') (64 + q) = i - sum_args - 1"
      using q(3) True by (simp add: rank1_Cons_high)
    ultimately show ?thesis by blast
  next
    case False
    with Cons.prems have k: "1 \<le> i - sum_args" "i - sum_args \<le> cnt w" by simp_all
    then have small: "(i - sum_args) mod 2 ^ 32 = i - sum_args"
      by (intro uint32_cast_small)
    from sel_position [OF k] obtain p where p: "p < 64" "sel w (i - sum_args) = Some p"
      "bit w p" "length (filter (bit w) [0..<p]) = i - sum_args - 1" by auto
    have "select_loop w (w' # rest') i sum_args (cnt w) word_pos oc c = Some (64 * word_pos + p)"
      using False p small
      by (simp add: ith_arg_pos_in_the_word_def push_bit_eq_mult)
    with p show ?thesis by (auto simp: bit_at_Cons_low rank1_Cons_low)
  qed
qed

lemma map_option_add_0: "map_option ((+) (0::nat)) x = x"
  by (cases x) simp_all

lemma select_as_loop:
  "select (w0 # rest) i = select_loop w0 rest i 0 (cnt w0) 0 0 0"
proof -
  have first: "cnt (w0 AND lo_unset 0) = cnt w0" "sel (w0 AND lo_unset 0) = sel w0"
    by (simp_all add: lo_unset_def)
  show ?thesis
  proof (cases rest)
    case Nil
    then show ?thesis
      by (simp add: select_def Let_def init_carry_def get_carry_def first
          args_in_the_first_word_def ith_arg_pos_in_the_first_word_def
          ith_arg_pos_in_the_word_def not_less map_option_add_0 option.map_ident)
  next
    case (Cons w1 rest1)
    then show ?thesis
      by (simp add: select_def Let_def init_carry_def get_carry_def first
          args_in_the_first_word_def ith_arg_pos_in_the_first_word_def
          ith_arg_pos_in_the_word_def not_less map_option_add_0 option.map_ident)
  qed
qed

text \<open>
  C3. For a bit vector \<open>B\<close> of length \<open>n\<close>, stored in the words \<open>data\<close>, that holds at
  least \<open>i \<ge> 1\<close> one-bits, \<open>select_support_scan<1,1>::select(i)\<close> returns a
  position \<open>p < n\<close> with \<open>B[p] = 1\<close> and exactly \<open>i - 1\<close> one-bits in \<open>B[0, p)\<close>:
  the position of the \<open>i\<close>-th one-bit. The first word is scanned with carry 0, and the
  scan stops in the word that holds the \<open>i\<close>-th one-bit; bits stored behind position
  \<open>n\<close> in the last word do not matter.
\<close>

theorem select_scan_ith_one:
  assumes "1 \<le> i" and "n \<le> 64 * length data" and "i \<le> rank1 data n"
  shows "\<exists>p. select data i = Some p \<and> p < n \<and> bit_at data p \<and> rank1 data p = i - 1"
proof -
  have "rank1 data n \<le> rank1 data (64 * length data)"
    using assms(2) by (rule rank1_mono)
  with assms(3) have total: "i \<le> sum_list (map cnt data)" by (simp add: rank1_all)
  with assms(1) obtain w0 rest where data: "data = w0 # rest" by (cases data) auto
  from assms(1) have "0 < i" by simp
  from select_loop_finds [OF this, of w0 rest 0 0 0] total data
  obtain q where q: "select_loop w0 rest i 0 (cnt w0) 0 0 0 = Some q"
    "bit_at data q" "rank1 data q = i - 1" by auto
  have "q < n"
  proof (rule ccontr)
    assume "\<not> q < n"
    then have "rank1 data n \<le> rank1 data q" by (intro rank1_mono) simp
    with q(3) assms(1,3) show False by simp
  qed
  with q data show ?thesis by (simp add: select_as_loop)
qed

theorem select_scan_ith_one_witness:
  "(1::nat) \<le> 4 \<and> 128 \<le> 64 * length two_words \<and> 4 \<le> rank1 two_words 128 \<and>
   select two_words 4 = Some 65 \<and> bit_at two_words 65 \<and> rank1 two_words 65 = 3"
proof -
  have a: "(1::nat) \<le> 4" by simp
  have b: "128 \<le> 64 * length two_words" by (simp add: two_words_def)
  have c: "4 \<le> rank1 two_words 128" by code_simp
  have w0: "cnt 0x8000000000000005 = 3" and w1: "cnt 0x8000000000000002 = 2"
    and s: "sel 0x8000000000000002 (Suc 0) = Some (Suc 0)"
    by code_simp+
  have d: "select two_words 4 = Some 65"
    by (simp add: select_def two_words_def Let_def init_carry_def get_carry_def
        args_in_the_first_word_def lo_unset_def args_in_the_word_def
        ith_arg_pos_in_the_word_def w0 w1 s)
  have e: "rank1 two_words 65 = 3" by code_simp
  from select_scan_ith_one [OF a b c] d e show ?thesis using b c by auto
qed

subsection \<open>\<open>first_row_symbol\<close>\<close>

lemma C_cumulative_mono:
  assumes "C_cumulative csa" and "a \<le> b" and "b \<le> csa_sigma csa"
  shows "csa_C csa ! a \<le> csa_C csa ! b"
  using assms(2,3)
proof (induction b)
  case 0
  then show ?case by simp
next
  case (Suc b)
  show ?case
  proof (cases "a = Suc b")
    case True
    then show ?thesis by simp
  next
    case False
    with Suc.prems have "a \<le> b" "b < csa_sigma csa" by simp_all
    moreover from assms(1) \<open>b < csa_sigma csa\<close> have "csa_C csa ! b \<le> csa_C csa ! Suc b"
      by (simp add: C_cumulative_def)
    ultimately show ?thesis using Suc.IH by simp
  qed
qed

lemma in_bucket_unique:
  assumes "C_cumulative csa" and "in_bucket csa i k" and "in_bucket csa i k'"
  shows "k' = k"
proof (rule ccontr)
  assume "k' \<noteq> k"
  then consider "k' < k" | "k < k'" by linarith
  then show False
  proof cases
    case 1
    then have "csa_C csa ! (k' + 1) \<le> csa_C csa ! k"
      using assms(2) by (intro C_cumulative_mono [OF assms(1)]) (simp_all add: in_bucket_def)
    with assms(2,3) show False by (simp add: in_bucket_def)
  next
    case 2
    then have "csa_C csa ! (k + 1) \<le> csa_C csa ! k'"
      using assms(3) by (intro C_cumulative_mono [OF assms(1)]) (simp_all add: in_bucket_def)
    with assms(2,3) show False by (simp add: in_bucket_def)
  qed
qed

lemma linear_search_C_finds:
  assumes "1 \<le> res" and "res \<le> csa_sigma csa" and "csa_C csa ! (res - 1) \<le> i"
    and "i < csa_C csa ! csa_sigma csa"
  shows "in_bucket csa i (linear_search_C csa i res - 1)"
  using assms
proof (induction csa i res rule: linear_search_C.induct)
  case (1 csa i res)
  show ?case
  proof (cases "res < csa_sigma csa \<and> csa_C csa ! res \<le> i")
    case True
    then have "in_bucket csa i (linear_search_C csa i (res + 1) - 1)"
      using "1.prems" by (intro "1.IH") simp_all
    with True show ?thesis by (subst linear_search_C.simps) simp
  next
    case False
    then have stop: "linear_search_C csa i res = res"
      by (subst linear_search_C.simps) auto
    from False "1.prems" have "i < csa_C csa ! res"
      by (cases "res < csa_sigma csa") simp_all
    with "1.prems" show ?thesis by (simp add: stop in_bucket_def)
  qed
qed

lemma binary_search_C_finds:
  assumes "lower_c < upper_c" and "upper_c \<le> csa_sigma csa"
    and "csa_C csa ! lower_c \<le> i" and "i < csa_C csa ! upper_c"
  shows "\<exists>k. binary_search_C csa i upper_c lower_c = Some k \<and> in_bucket csa i k"
  using assms
proof (induction "upper_c - lower_c" arbitrary: upper_c lower_c rule: less_induct)
  case less
  define res where "res = (upper_c + lower_c) div 2"
  have res: "lower_c \<le> res" "res < upper_c" using less.prems(1) by (simp_all add: res_def)
  consider (left) "i < csa_C csa ! res"
    | (right) "csa_C csa ! res \<le> i" "csa_C csa ! (res + 1) \<le> i"
    | (hit) "csa_C csa ! res \<le> i" "i < csa_C csa ! (res + 1)"
    by linarith
  then show ?case
  proof cases
    case left
    with less.prems(3) have "lower_c \<noteq> res" by auto
    with res have lt: "lower_c < res" by simp
    have step: "binary_search_C csa i upper_c lower_c = binary_search_C csa i res lower_c"
      using left by (subst binary_search_C.simps) (simp add: Let_def res_def)
    have "\<exists>k. binary_search_C csa i res lower_c = Some k \<and> in_bucket csa i k"
      using lt res less.prems left by (intro less.hyps) simp_all
    with step show ?thesis by simp
  next
    case right
    with less.prems(4) have "res + 1 \<noteq> upper_c" by auto
    with res have lt: "res + 1 < upper_c" by simp
    have step: "binary_search_C csa i upper_c lower_c = binary_search_C csa i upper_c (res + 1)"
      using right by (subst binary_search_C.simps) (simp add: Let_def res_def not_less)
    have "\<exists>k. binary_search_C csa i upper_c (res + 1) = Some k \<and> in_bucket csa i k"
      using lt res less.prems right by (intro less.hyps) simp_all
    with step show ?thesis by simp
  next
    case hit
    have "binary_search_C csa i upper_c lower_c = Some res"
      using hit by (subst binary_search_C.simps) (simp add: Let_def res_def not_less not_le)
    moreover have "in_bucket csa i res"
      using hit res less.prems(2) by (simp add: in_bucket_def)
    ultimately show ?thesis by simp
  qed
qed

text \<open>
  C4. When the table \<open>C\<close> is non-decreasing with \<open>C[0] = 0\<close> and \<open>C[sigma] = size()\<close>,
  \<open>first_row_symbol(i, csa)\<close> returns for every \<open>i < size()\<close>, and what it returns is
  \<open>comp2char[k]\<close> for the one \<open>k\<close> with \<open>C[k] \<le> i < C[k+1]\<close>, in the linear scan
  (\<open>sigma < 16\<close>) and in the binary search alike.
\<close>

theorem first_row_symbol_bucket:
  assumes "C_cumulative csa" and "i < csa_size csa"
  shows "\<exists>k. first_row_symbol i csa = Some (csa_comp2char csa ! k) \<and> in_bucket csa i k \<and>
             (\<forall>k'. in_bucket csa i k' \<longrightarrow> k' = k)"
proof -
  have top: "i < csa_C csa ! csa_sigma csa" and zero: "csa_C csa ! 0 = 0"
    using assms by (simp_all add: C_cumulative_def)
  then have pos: "0 < csa_sigma csa" by (cases "csa_sigma csa") simp_all
  have "\<exists>k. first_row_symbol i csa = Some (csa_comp2char csa ! k) \<and> in_bucket csa i k"
  proof (cases "csa_sigma csa < 16")
    case True
    have "in_bucket csa i (linear_search_C csa i 1 - 1)"
      using pos top zero by (intro linear_search_C_finds) simp_all
    with True show ?thesis by (auto simp: first_row_symbol_def Let_def)
  next
    case False
    from binary_search_C_finds [of 0 "csa_sigma csa" csa i] pos top zero
    obtain k where "binary_search_C csa i (csa_sigma csa) 0 = Some k" "in_bucket csa i k"
      by auto
    with False show ?thesis by (auto simp: first_row_symbol_def)
  qed
  then obtain k where k: "first_row_symbol i csa = Some (csa_comp2char csa ! k)"
    "in_bucket csa i k" by blast
  moreover have "\<forall>k'. in_bucket csa i k' \<longrightarrow> k' = k"
    using in_bucket_unique [OF assms(1) k(2)] by blast
  ultimately show ?thesis by blast
qed

theorem first_row_symbol_bucket_witness:
  "C_cumulative small_csa \<and> 6 < csa_size small_csa \<and>
   first_row_symbol 6 small_csa = Some 112 \<and> in_bucket small_csa 6 3 \<and>
   C_cumulative wide_csa \<and> 5 < csa_size wide_csa \<and>
   first_row_symbol 5 wide_csa = Some 5 \<and> in_bucket wide_csa 5 5"
proof -
  have c1: "C_cumulative small_csa"
    unfolding C_cumulative_def all_less_upt
    by code_simp
  have s1: "6 < csa_size small_csa" by (simp add: small_csa_def csa_size_def)
  have b1: "in_bucket small_csa 6 3"
    by (simp add: in_bucket_def small_csa_def csa_C_def csa_sigma_def)
  from first_row_symbol_bucket [OF c1 s1] b1
  have "first_row_symbol 6 small_csa = Some (csa_comp2char small_csa ! 3)" by metis
  then have r1: "first_row_symbol 6 small_csa = Some 112"
    by (simp add: small_csa_def csa_comp2char_def)
  have c2: "C_cumulative wide_csa"
    by (simp add: C_cumulative_def wide_csa_def csa_C_def csa_sigma_def csa_size_def)
  have s2: "5 < csa_size wide_csa" by (simp add: wide_csa_def csa_size_def)
  have b2: "in_bucket wide_csa 5 5"
    by (simp add: in_bucket_def wide_csa_def csa_C_def csa_sigma_def)
  from first_row_symbol_bucket [OF c2 s2] b2
  have "first_row_symbol 5 wide_csa = Some (csa_comp2char wide_csa ! 5)" by metis
  then have r2: "first_row_symbol 5 wide_csa = Some 5"
    by (simp add: wide_csa_def csa_comp2char_def)
  from c1 s1 r1 b1 c2 s2 r2 b2 show ?thesis by blast
qed

subsection \<open>The suffix order and \<open>psi\<close>\<close>

lemma suffix_order:
  assumes "csa_of_text T csa" and "j1 < j2" and "j2 < csa_size csa"
  shows "drop (csa_at csa j1) T < drop (csa_at csa j2) T"
proof -
  let ?xs = "map (\<lambda>j. drop (csa_at csa j) T) [0..<csa_size csa]"
  from assms(1) have "sorted_wrt (<) ?xs" by (simp add: csa_of_text_def)
  moreover have "j1 < j2" "j2 < length ?xs" using assms by simp_all
  ultimately have "?xs ! j1 < ?xs ! j2" by (rule sorted_wrt_nth_less)
  with assms(2,3) show ?thesis by simp
qed

lemma suffix_order_reflects:
  assumes "csa_of_text T csa" and "r1 < csa_size csa" and "r2 < csa_size csa"
    and "drop (csa_at csa r1) T < drop (csa_at csa r2) T"
  shows "r1 < r2"
proof (rule ccontr)
  assume "\<not> r1 < r2"
  then consider "r1 = r2" | "r2 < r1" by linarith
  then show False
  proof cases
    case 1
    with assms(4) show False by simp
  next
    case 2
    from suffix_order [OF assms(1) 2 assms(2)] assms(4) show False by simp
  qed
qed

lemma csa_of_text_facts:
  assumes "csa_of_text T csa"
  shows "sa_isa_inverse csa" and "length T = csa_size csa" and "0 < csa_size csa"
    and "csa_size csa < 2 ^ 64"
proof -
  from assms show "sa_isa_inverse csa" and len: "length T = csa_size csa"
    and "csa_size csa < 2 ^ 64"
    by (simp_all add: csa_of_text_def)
  from assms have "T \<noteq> []" by (simp add: csa_of_text_def)
  then have "0 < length T" by simp
  then show "0 < csa_size csa" by (simp only: len)
qed

lemma sentinel_position:
  assumes "csa_of_text T csa" and "p < csa_size csa"
  shows "T ! p = 0 \<longleftrightarrow> p = csa_size csa - 1"
proof -
  from assms(1) have T: "T \<noteq> []" "last T = 0" "0 \<notin> set (butlast T)"
    and len: "length T = csa_size csa"
    by (simp_all add: csa_of_text_def)
  show ?thesis
  proof
    assume z: "T ! p = 0"
    show "p = csa_size csa - 1"
    proof (rule ccontr)
      assume "p \<noteq> csa_size csa - 1"
      with assms(2) len have "p < length (butlast T)" by simp
      then have "butlast T ! p \<in> set (butlast T)" by (rule nth_mem)
      moreover have "butlast T ! p = T ! p"
        using \<open>p < length (butlast T)\<close> by (rule nth_butlast)
      ultimately show False using z T(3) by simp
    qed
  next
    assume "p = csa_size csa - 1"
    with T len show "T ! p = 0" by (simp add: last_conv_nth)
  qed
qed

lemma first_char_order:
  assumes "csa_of_text T csa" and "j1 < j2" and "j2 < csa_size csa"
  shows "T ! csa_at csa j1 \<le> T ! csa_at csa j2"
    and "T ! csa_at csa j1 = T ! csa_at csa j2 \<Longrightarrow>
         drop (Suc (csa_at csa j1)) T < drop (Suc (csa_at csa j2)) T"
proof -
  note inv = csa_of_text_facts(1) [OF assms(1)] and len = csa_of_text_facts(2) [OF assms(1)]
  from assms have j1: "j1 < csa_size csa" by simp
  have s1: "csa_at csa j1 < length T" using isa_sa(2) [OF inv j1] len by simp
  have s2: "csa_at csa j2 < length T" using isa_sa(2) [OF inv assms(3)] len by simp
  have "drop (csa_at csa j1) T < drop (csa_at csa j2) T"
    using assms by (rule suffix_order)
  then have *: "T ! csa_at csa j1 # drop (Suc (csa_at csa j1)) T
              < T ! csa_at csa j2 # drop (Suc (csa_at csa j2)) T"
    by (simp only: Cons_nth_drop_Suc [OF s1] Cons_nth_drop_Suc [OF s2])
  then show "T ! csa_at csa j1 \<le> T ! csa_at csa j2" by auto
  from * show "drop (Suc (csa_at csa j1)) T < drop (Suc (csa_at csa j2)) T"
    if "T ! csa_at csa j1 = T ! csa_at csa j2"
    using that by simp
qed

lemma first_char_mono:
  assumes "csa_of_text T csa" and "j1 \<le> j2" and "j2 < csa_size csa"
  shows "T ! csa_at csa j1 \<le> T ! csa_at csa j2"
proof (cases "j1 = j2")
  case True
  then show ?thesis by simp
next
  case False
  with assms(2) have "j1 < j2" by simp
  then show ?thesis using assms(1,3) first_char_order(1) by blast
qed

lemma sa_inj:
  assumes "csa_of_text T csa" and "j1 < csa_size csa" and "j2 < csa_size csa"
    and "csa_at csa j1 = csa_at csa j2"
  shows "j1 = j2"
proof -
  note inv = csa_of_text_facts(1) [OF assms(1)]
  have "j1 = isa csa (csa_at csa j1)" using isa_sa(1) [OF inv assms(2)] by simp
  also have "\<dots> = isa csa (csa_at csa j2)" by (simp only: assms(4))
  also have "\<dots> = j2" using isa_sa(1) [OF inv assms(3)] .
  finally show ?thesis .
qed

lemma psi_mono_in_bucket:
  assumes "csa_of_text T csa" and "j1 < j2" and "j2 < csa_size csa"
    and eq: "T ! csa_at csa j1 = T ! csa_at csa j2"
  shows "psi csa j1 < psi csa j2"
proof -
  let ?n = "csa_size csa"
  note inv = csa_of_text_facts(1) [OF assms(1)]
  from assms have j1: "j1 < ?n" by simp
  have s1: "csa_at csa j1 < ?n" using isa_sa(2) [OF inv j1] .
  have s2: "csa_at csa j2 < ?n" using isa_sa(2) [OF inv assms(3)] .
  have ne: "csa_at csa j1 \<noteq> csa_at csa j2"
    using sa_inj [OF assms(1) j1 assms(3)] assms(2) by auto
  have "\<not> (csa_at csa j1 = ?n - 1 \<and> csa_at csa j2 = ?n - 1)" using ne by simp
  then have "T ! csa_at csa j1 \<noteq> 0"
    using sentinel_position [OF assms(1) s1] sentinel_position [OF assms(1) s2] eq by auto
  then have "csa_at csa j1 \<noteq> ?n - 1" "csa_at csa j2 \<noteq> ?n - 1"
    using sentinel_position [OF assms(1) s1] sentinel_position [OF assms(1) s2] eq by auto
  with s1 s2 have t1: "Suc (csa_at csa j1) < ?n" and t2: "Suc (csa_at csa j2) < ?n" by simp_all
  have p1: "psi csa j1 = isa csa (Suc (csa_at csa j1))"
    and p2: "psi csa j2 = isa csa (Suc (csa_at csa j2))"
    using t1 t2 by (simp_all add: psi_def)
  have r1: "psi csa j1 < ?n" "csa_at csa (psi csa j1) = Suc (csa_at csa j1)"
    unfolding p1 using isa_range [OF inv t1] by simp_all
  have r2: "psi csa j2 < ?n" "csa_at csa (psi csa j2) = Suc (csa_at csa j2)"
    unfolding p2 using isa_range [OF inv t2] by simp_all
  have "drop (Suc (csa_at csa j1)) T < drop (Suc (csa_at csa j2)) T"
    using first_char_order(2) [OF assms(1,2,3) eq] .
  then have "drop (csa_at csa (psi csa j1)) T < drop (csa_at csa (psi csa j2)) T"
    by (simp only: r1(2) r2(2))
  then show ?thesis using suffix_order_reflects [OF assms(1) r1(1) r2(1)] by simp
qed

lemma bwt_char_psi:
  assumes "csa_of_text T csa" and "j < csa_size csa"
  shows "bwt_char T csa (psi csa j) = T ! csa_at csa j"
proof -
  let ?n = "csa_size csa"
  note inv = csa_of_text_facts(1) [OF assms(1)]
  have s: "csa_at csa j < ?n" using isa_sa(2) [OF inv assms(2)] .
  have "(csa_at csa j + 1) mod ?n < ?n" using assms(2) by simp
  then have "csa_at csa (psi csa j) = (csa_at csa j + 1) mod ?n"
    unfolding psi_def using isa_range(2) [OF inv] by simp
  then show ?thesis using mod_succ_pred(1) [OF s] by (simp add: bwt_char_def)
qed

subsection \<open>Counting rows\<close>

lemma count_through_sa:
  assumes "csa_of_text T csa"
  shows "card {j. j < csa_size csa \<and> P (T ! csa_at csa j)} = length (filter P T)"
proof -
  let ?n = "csa_size csa"
  let ?A = "{j. j < ?n \<and> P (T ! csa_at csa j)}"
  let ?B = "{p. p < ?n \<and> P (T ! p)}"
  note inv = csa_of_text_facts(1) [OF assms] and len = csa_of_text_facts(2) [OF assms]
  have img: "csa_at csa ` ?A = ?B"
  proof (intro set_eqI iffI)
    fix p assume "p \<in> csa_at csa ` ?A"
    then show "p \<in> ?B" using isa_sa(2) [OF inv] by auto
  next
    fix p assume "p \<in> ?B"
    then have p: "p < ?n" "P (T ! p)" by simp_all
    have q: "csa_at csa (isa csa p) = p" using isa_range(2) [OF inv p(1)] .
    from isa_range(1) [OF inv p(1)] p(2) have "isa csa p \<in> ?A" by (simp add: q)
    then have "csa_at csa (isa csa p) \<in> csa_at csa ` ?A" by (rule imageI)
    then show "p \<in> csa_at csa ` ?A" by (simp only: q)
  qed
  have "inj_on (csa_at csa) ?A"
  proof (rule inj_onI)
    fix x y assume "x \<in> ?A" "y \<in> ?A" "csa_at csa x = csa_at csa y"
    then have "x < ?n" "y < ?n" "csa_at csa x = csa_at csa y" by simp_all
    then show "x = y" by (rule sa_inj [OF assms])
  qed
  then have "card (csa_at csa ` ?A) = card ?A" by (rule card_image)
  then have "card ?B = card ?A" by (simp only: img)
  moreover have "length (filter P T) = card ?B"
    by (simp add: length_filter_conv_card len)
  ultimately show ?thesis by simp
qed

lemma length_filter_mono:
  assumes "\<And>x. x \<in> set xs \<Longrightarrow> P x \<Longrightarrow> Q x"
  shows "length (filter P xs) \<le> length (filter Q xs)"
proof -
  have "filter P xs = filter P (filter Q xs)"
    using assms by (auto intro: filter_cong)
  then show ?thesis by (metis length_filter_le)
qed

lemma row_bucket_bounds:
  assumes "csa_of_text T csa" and "j < csa_size csa"
  shows "length (filter (\<lambda>t. t < T ! csa_at csa j) T) \<le> j"
    and "j < length (filter (\<lambda>t. t \<le> T ! csa_at csa j) T)"
proof -
  let ?n = "csa_size csa"
  let ?c = "T ! csa_at csa j"
  have "{j'. j' < ?n \<and> T ! csa_at csa j' < ?c} \<subseteq> {..<j}"
  proof
    fix j' assume "j' \<in> {j'. j' < ?n \<and> T ! csa_at csa j' < ?c}"
    then have j': "j' < ?n" "T ! csa_at csa j' < ?c" by simp_all
    have "j' < j"
    proof (rule ccontr)
      assume "\<not> j' < j"
      then have "j \<le> j'" by simp
      from first_char_mono [OF assms(1) this j'(1)] j'(2) show False by simp
    qed
    then show "j' \<in> {..<j}" by simp
  qed
  then have "card {j'. j' < ?n \<and> T ! csa_at csa j' < ?c} \<le> card {..<j}"
    by (intro card_mono) simp_all
  then show "length (filter (\<lambda>t. t < ?c) T) \<le> j"
    by (simp add: count_through_sa [OF assms(1), of "\<lambda>t. t < ?c"])
  have "{..j} \<subseteq> {j'. j' < ?n \<and> T ! csa_at csa j' \<le> ?c}"
    using first_char_mono [OF assms(1) _ assms(2)] assms(2) by auto
  then have "card {..j} \<le> card {j'. j' < ?n \<and> T ! csa_at csa j' \<le> ?c}"
    by (intro card_mono) simp_all
  then show "j < length (filter (\<lambda>t. t \<le> ?c) T)"
    by (simp add: count_through_sa [OF assms(1), of "\<lambda>t. t \<le> ?c"])
qed

lemma row_in_bucket_iff:
  assumes "csa_of_text T csa" and "j < csa_size csa"
  shows "T ! csa_at csa j = c \<longleftrightarrow>
         length (filter (\<lambda>t. t < c) T) \<le> j \<and> j < length (filter (\<lambda>t. t \<le> c) T)"
proof
  assume "T ! csa_at csa j = c"
  with row_bucket_bounds [OF assms] show
    "length (filter (\<lambda>t. t < c) T) \<le> j \<and> j < length (filter (\<lambda>t. t \<le> c) T)" by auto
next
  let ?c' = "T ! csa_at csa j"
  assume b: "length (filter (\<lambda>t. t < c) T) \<le> j \<and> j < length (filter (\<lambda>t. t \<le> c) T)"
  show "?c' = c"
  proof (rule ccontr)
    assume "?c' \<noteq> c"
    then consider "?c' < c" | "c < ?c'" by (metis not_less_iff_gr_or_eq)
    then show False
    proof cases
      case 1
      then have "length (filter (\<lambda>t. t \<le> ?c') T) \<le> length (filter (\<lambda>t. t < c) T)"
        by (intro length_filter_mono) simp
      with row_bucket_bounds(2) [OF assms] b show False by simp
    next
      case 2
      then have "length (filter (\<lambda>t. t \<le> c) T) \<le> length (filter (\<lambda>t. t < ?c') T)"
        by (intro length_filter_mono) simp
      with row_bucket_bounds(1) [OF assms] b show False by simp
    qed
  qed
qed

lemma psi_inj:
  assumes "csa_of_text T csa" and "j1 < csa_size csa" and "j2 < csa_size csa"
    and "psi csa j1 = psi csa j2"
  shows "j1 = j2"
proof -
  note inv = csa_of_text_facts(1) [OF assms(1)]
  have "j1 = lf csa (psi csa j1)" using lf_psi [OF inv assms(2)] by simp
  also have "\<dots> = lf csa (psi csa j2)" by (simp only: assms(4))
  also have "\<dots> = j2" using lf_psi [OF inv assms(3)] .
  finally show ?thesis .
qed

lemma length_filter_upt: "length (filter P [0..<n]) = card {j. j < n \<and> P j}"
proof -
  have "distinct (filter P [0..<n])" by simp
  then have "length (filter P [0..<n]) = card (set (filter P [0..<n]))"
    by (simp only: distinct_card)
  also have "set (filter P [0..<n]) = {j. j < n \<and> P j}" by auto
  finally show ?thesis .
qed

lemma bwt_count_as_card:
  assumes "csa_of_text T csa" and "i \<le> csa_size csa"
  shows "bwt_count T csa i c =
         card {j. j < csa_size csa \<and> T ! csa_at csa j = c \<and> psi csa j < i}"
proof -
  let ?n = "csa_size csa"
  let ?A = "{j. j < ?n \<and> T ! csa_at csa j = c \<and> psi csa j < i}"
  let ?B = "{r. r < i \<and> bwt_char T csa r = c}"
  note inv = csa_of_text_facts(1) [OF assms(1)]
  have cnt: "bwt_count T csa i c = card ?B"
    by (simp only: bwt_count_def length_filter_upt)
  have img: "psi csa ` ?A = ?B"
  proof (intro set_eqI iffI)
    fix r assume "r \<in> psi csa ` ?A"
    then obtain j where j: "j < ?n" "T ! csa_at csa j = c" "psi csa j < i" "r = psi csa j"
      by blast
    have "bwt_char T csa (psi csa j) = c"
      using bwt_char_psi [OF assms(1) j(1)] j(2) by (rule trans)
    with j(3) show "r \<in> ?B" unfolding j(4) by blast
  next
    fix r assume "r \<in> ?B"
    then have r: "r < i" "bwt_char T csa r = c" by simp_all
    with assms(2) have rn: "r < ?n" by simp
    have rt: "psi csa (lf csa r) = r" using psi_lf [OF inv rn] .
    have l: "lf csa r < ?n" using lf_range [OF inv rn] .
    have "bwt_char T csa (psi csa (lf csa r)) = T ! csa_at csa (lf csa r)"
      using bwt_char_psi [OF assms(1) l] .
    then have m: "T ! csa_at csa (lf csa r) = c" using r(2) by (simp only: rt)
    have "psi csa (lf csa r) < i" using r(1) by (simp only: rt)
    with l m have "lf csa r \<in> ?A" by blast
    then have "psi csa (lf csa r) \<in> psi csa ` ?A" by (rule imageI)
    then show "r \<in> psi csa ` ?A" by (simp only: rt)
  qed
  have "inj_on (psi csa) ?A"
  proof (rule inj_onI)
    fix x y assume "x \<in> ?A" "y \<in> ?A" "psi csa x = psi csa y"
    then have "x < ?n" "y < ?n" "psi csa x = psi csa y" by simp_all
    then show "x = y" by (rule psi_inj [OF assms(1)])
  qed
  then have "card (psi csa ` ?A) = card ?A" by (rule card_image)
  then have "card ?B = card ?A" by (simp only: img)
  with cnt show ?thesis by simp
qed

subsection \<open>The binary search of \<open>rank_bwt\<close>\<close>

lemma rank_bwt_loop_result:
  assumes "\<forall>a b. lo \<le> a \<longrightarrow> a < b \<longrightarrow> b < hi \<longrightarrow> psi csa a < psi csa b"
    and "lo \<le> lower_b" and "lower_b < upper_b" and "upper_b \<le> hi"
    and "lower_b = lo \<or> psi csa lower_b < i"
    and "upper_b = hi \<or> i \<le> psi csa upper_b"
  shows "(let l = rank_bwt_loop csa i lower_b upper_b
          in if l > lo then l - lo + 1 else if psi csa l < i then 1 else 0)
         = card {j. lo \<le> j \<and> j < hi \<and> psi csa j < i}"
  using assms
proof (induction csa i lower_b upper_b rule: rank_bwt_loop.induct)
  case (1 csa i lower_b upper_b)
  note mono = "1.prems"(1)
  have mono_le: "psi csa a \<le> psi csa b" if "lo \<le> a" "a \<le> b" "b < hi" for a b
  proof (cases "a = b")
    case True
    then show ?thesis by simp
  next
    case False
    with that have "a < b" by simp
    with that mono have "psi csa a < psi csa b" by blast
    then show ?thesis by simp
  qed
  let ?S = "{j. lo \<le> j \<and> j < hi \<and> psi csa j < i}"
  show ?case
  proof (cases "lower_b + 1 < upper_b")
    case True
    define mid where "mid = (lower_b + upper_b) div 2"
    have mid: "lower_b < mid" "mid < upper_b" using True by (simp_all add: mid_def)
    show ?thesis
    proof (cases "psi csa mid \<ge> i")
      case ge: True
      have step: "rank_bwt_loop csa i lower_b upper_b = rank_bwt_loop csa i lower_b mid"
        using True ge by (subst rank_bwt_loop.simps) (simp add: mid_def Let_def)
      have "(let l = rank_bwt_loop csa i lower_b mid
             in if l > lo then l - lo + 1 else if psi csa l < i then 1 else 0) = card ?S"
        using True ge mid "1.prems" by (intro "1.IH"(1) [OF True mid_def ge]) simp_all
      then show ?thesis by (simp only: step)
    next
      case lt: False
      have step: "rank_bwt_loop csa i lower_b upper_b = rank_bwt_loop csa i mid upper_b"
        using True lt by (subst rank_bwt_loop.simps) (simp add: mid_def Let_def)
      have "(let l = rank_bwt_loop csa i mid upper_b
             in if l > lo then l - lo + 1 else if psi csa l < i then 1 else 0) = card ?S"
        using True lt mid "1.prems" by (intro "1.IH"(2) [OF True mid_def lt]) simp_all
      then show ?thesis by (simp only: step)
    qed
  next
    case False
    with "1.prems"(3) have up: "upper_b = lower_b + 1" by simp
    have stop: "rank_bwt_loop csa i lower_b upper_b = lower_b"
      using False by (subst rank_bwt_loop.simps) simp
    show ?thesis
    proof (cases "psi csa lower_b < i")
      case True
      have "?S = {lo..lower_b}"
      proof (intro set_eqI iffI)
        fix j assume "j \<in> ?S"
        then have j: "lo \<le> j" "j < hi" "psi csa j < i" by simp_all
        have "j \<le> lower_b"
        proof (rule ccontr)
          assume "\<not> j \<le> lower_b"
          with up have uj: "upper_b \<le> j" by simp
          with j(2) "1.prems"(6) have "i \<le> psi csa upper_b" by auto
          also have "\<dots> \<le> psi csa j"
            using uj j(2) "1.prems"(2,3) by (intro mono_le) simp_all
          finally show False using j(3) by simp
        qed
        with j(1) show "j \<in> {lo..lower_b}" by simp
      next
        fix j assume "j \<in> {lo..lower_b}"
        then have j: "lo \<le> j" "j \<le> lower_b" by simp_all
        have lh: "lower_b < hi" using "1.prems"(3,4) by simp
        have "psi csa j \<le> psi csa lower_b" using j lh by (intro mono_le) simp_all
        with True j lh show "j \<in> ?S" by simp
      qed
      then have "card ?S = lower_b + 1 - lo" by simp
      also have "\<dots> = lower_b - lo + 1" using "1.prems"(2) by simp
      finally have "card ?S = lower_b - lo + 1" .
      moreover have "lower_b - lo + 1 = 1" if "\<not> lo < lower_b"
        using that "1.prems"(2) by simp
      ultimately show ?thesis unfolding stop Let_def using True by simp
    next
      case False
      with "1.prems"(5) have ll: "lower_b = lo" by simp
      have "?S = {}"
      proof -
        have "\<not> psi csa j < i" if "lo \<le> j" "j < hi" for j
        proof -
          have "psi csa lo \<le> psi csa j" using that by (intro mono_le) simp_all
          with False ll show ?thesis by simp
        qed
        then show ?thesis by auto
      qed
      then show ?thesis unfolding stop Let_def using False ll by simp
    qed
  qed
qed

subsection \<open>The alphabet tables\<close>

lemma strict_sorted_nth:
  fixes xs :: "'a::linorder list"
  assumes "sorted_wrt (<) xs" and "m < length xs" and "m' < length xs"
  shows "xs ! m < xs ! m' \<longleftrightarrow> m < m'" and "xs ! m \<le> xs ! m' \<longleftrightarrow> m \<le> m'"
proof -
  have up: "xs ! a < xs ! b" if "a < b" "b < length xs" for a b
    using assms(1) that by (rule sorted_wrt_nth_less)
  show "xs ! m < xs ! m' \<longleftrightarrow> m < m'"
  proof
    assume lt: "xs ! m < xs ! m'"
    show "m < m'"
    proof (rule ccontr)
      assume "\<not> m < m'"
      then consider "m = m'" | "m' < m" by linarith
      then show False
      proof cases
        case 1
        with lt show False by simp
      next
        case 2
        from up [OF 2 assms(2)] lt show False by simp
      qed
    qed
  next
    assume "m < m'"
    then show "xs ! m < xs ! m'" using assms(3) by (rule up)
  qed
  then have "xs ! m' < xs ! m \<longleftrightarrow> m' < m"
    using assms up by (metis not_less_iff_gr_or_eq)
  then show "xs ! m \<le> xs ! m' \<longleftrightarrow> m \<le> m'"
    by (simp only: linorder_not_less [symmetric])
qed

lemma alphabet_of_text_bucket:
  assumes "alphabet_of_text T a" and "c \<in> set T"
  shows "char2comp a c < sigma a" and "comp2char a ! char2comp a c = c"
    and "C a ! char2comp a c = length (filter (\<lambda>t. t < c) T)"
    and "C a ! (char2comp a c + 1) = length (filter (\<lambda>t. t \<le> c) T)"
proof -
  from assms(1) have sg: "sigma a = length (comp2char a)"
    and srt: "sorted_wrt (<) (comp2char a)" and st: "set (comp2char a) = set T"
    and c2c: "\<forall>k < sigma a. char2comp a (comp2char a ! k) = k"
    and Ck: "\<forall>k < sigma a. C a ! k = length (filter (\<lambda>t. t < comp2char a ! k) T)"
    and Cs: "C a ! sigma a = length T"
    unfolding alphabet_of_text_def by blast+
  have idx: "\<exists>m < sigma a. comp2char a ! m = t" if "t \<in> set T" for t
    using that st sg by (metis in_set_conv_nth)
  from idx [OF assms(2)] obtain k where k: "k < sigma a" "comp2char a ! k = c" by blast
  with c2c have cc: "char2comp a c = k" by auto
  show "char2comp a c < sigma a" and "comp2char a ! char2comp a c = c"
    using k by (simp_all only: cc)
  show "C a ! char2comp a c = length (filter (\<lambda>t. t < c) T)"
    using Ck k by (simp add: cc)
  have le_iff: "t \<le> c \<longleftrightarrow> m \<le> k" if "m < sigma a" "comp2char a ! m = t" for t m
    using strict_sorted_nth(2) [OF srt, of m k] that k sg by simp
  show "C a ! (char2comp a c + 1) = length (filter (\<lambda>t. t \<le> c) T)"
  proof (cases "k + 1 < sigma a")
    case True
    have "filter (\<lambda>t. t < comp2char a ! (k + 1)) T = filter (\<lambda>t. t \<le> c) T"
    proof (rule filter_cong [OF refl])
      fix t assume "t \<in> set T"
      from idx [OF this] obtain m where m: "m < sigma a" "comp2char a ! m = t" by blast
      have "t < comp2char a ! (k + 1) \<longleftrightarrow> m < k + 1"
        using strict_sorted_nth(1) [OF srt, of m "k + 1"] m True sg by simp
      also have "\<dots> \<longleftrightarrow> m \<le> k" by auto
      also have "\<dots> \<longleftrightarrow> t \<le> c" using le_iff [OF m] by simp
      finally show "t < comp2char a ! (k + 1) \<longleftrightarrow> t \<le> c" .
    qed
    with Ck True show ?thesis by (simp add: cc)
  next
    case False
    with k have last: "k + 1 = sigma a" by simp
    have "filter (\<lambda>t. t \<le> c) T = T"
    proof -
      have "t \<le> c" if "t \<in> set T" for t
      proof -
        from idx [OF that] obtain m where m: "m < sigma a" "comp2char a ! m = t" by blast
        with last have "m \<le> k" by simp
        with le_iff [OF m] show ?thesis by simp
      qed
      then show ?thesis by (simp add: filter_id_conv)
    qed
    with Cs last show ?thesis by (simp add: cc)
  qed
qed

lemma sentinel_in_text:
  assumes "csa_of_text T csa"
  shows "0 \<in> set T"
proof -
  from assms have "T \<noteq> []" "last T = 0" by (simp_all add: csa_of_text_def)
  then show ?thesis by (metis last_in_set)
qed

lemma char2comp_nonzero:
  assumes "csa_of_text T csa" and "c \<in> set T" and "c \<noteq> 0"
  shows "csa_char2comp csa c \<noteq> 0"
proof
  assume z: "csa_char2comp csa c = 0"
  from assms(1) have al: "alphabet_of_text T (m_alphabet csa)" by (simp add: csa_of_text_def)
  have "C (m_alphabet csa) ! 0 = length (filter (\<lambda>t. t < c) T)"
    using alphabet_of_text_bucket(3) [OF al assms(2)] z by (simp add: csa_char2comp_def)
  moreover have "C (m_alphabet csa) ! char2comp (m_alphabet csa) 0 = length (filter (\<lambda>t. t < 0) T)"
    using alphabet_of_text_bucket(3) [OF al sentinel_in_text [OF assms(1)]] .
  moreover have "char2comp (m_alphabet csa) 0 \<le> 0"
  proof -
    have "comp2char (m_alphabet csa) ! char2comp (m_alphabet csa) 0 = 0"
      using alphabet_of_text_bucket(2) [OF al sentinel_in_text [OF assms(1)]] .
    moreover have "comp2char (m_alphabet csa) ! 0 = c"
      using alphabet_of_text_bucket(2) [OF al assms(2)] z by (simp add: csa_char2comp_def)
    moreover have srt: "sorted_wrt (<) (comp2char (m_alphabet csa))"
      and sg: "sigma (m_alphabet csa) = length (comp2char (m_alphabet csa))"
      using al unfolding alphabet_of_text_def by blast+
    moreover have "char2comp (m_alphabet csa) 0 < sigma (m_alphabet csa)"
      using alphabet_of_text_bucket(1) [OF al sentinel_in_text [OF assms(1)]] .
    moreover have "0 < sigma (m_alphabet csa)"
      using alphabet_of_text_bucket(1) [OF al assms(2)] by simp
    ultimately show ?thesis
      using strict_sorted_nth(2) [OF srt, of "char2comp (m_alphabet csa) 0" 0] by simp
  qed
  ultimately have "length (filter (\<lambda>t. t < c) T) = 0" by simp
  moreover have "0 \<in> set (filter (\<lambda>t. t < c) T)"
    using sentinel_in_text [OF assms(1)] assms(3) by (simp add: word_gt_0)
  ultimately show False by simp
qed

subsection \<open>\<open>rank_bwt\<close> counts the BWT\<close>

lemma bucket_of_char:
  assumes "csa_of_text T csa" and "c \<in> set T"
  defines "lo \<equiv> csa_C csa ! csa_char2comp csa c"
    and "hi \<equiv> csa_C csa ! (1 + csa_char2comp csa c)"
  shows "lo < hi" and "hi \<le> csa_size csa"
    and "\<forall>j < csa_size csa. T ! csa_at csa j = c \<longleftrightarrow> lo \<le> j \<and> j < hi"
    and "\<forall>a b. lo \<le> a \<longrightarrow> a < b \<longrightarrow> b < hi \<longrightarrow> psi csa a < psi csa b"
proof -
  let ?n = "csa_size csa"
  note inv = csa_of_text_facts(1) [OF assms(1)] and len = csa_of_text_facts(2) [OF assms(1)]
  from assms(1) have al: "alphabet_of_text T (m_alphabet csa)" by (simp add: csa_of_text_def)
  have lo: "lo = length (filter (\<lambda>t. t < c) T)"
    using alphabet_of_text_bucket(3) [OF al assms(2)]
    by (simp add: lo_def csa_C_def csa_char2comp_def)
  have hi: "hi = length (filter (\<lambda>t. t \<le> c) T)"
    using alphabet_of_text_bucket(4) [OF al assms(2)]
    by (simp add: hi_def csa_C_def csa_char2comp_def add.commute)
  show rows: "\<forall>j < ?n. T ! csa_at csa j = c \<longleftrightarrow> lo \<le> j \<and> j < hi"
    using row_in_bucket_iff [OF assms(1)] by (simp add: lo hi)
  from assms(2) obtain p where p: "p < ?n" "T ! p = c"
    using len by (metis in_set_conv_nth)
  have "T ! csa_at csa (isa csa p) = c" using isa_range(2) [OF inv p(1)] p(2) by simp
  with rows isa_range(1) [OF inv p(1)] have "lo \<le> isa csa p \<and> isa csa p < hi" by blast
  then show "lo < hi" by simp
  have "length (filter (\<lambda>t. t \<le> c) T) \<le> length T" by (rule length_filter_le)
  then show hn: "hi \<le> ?n" by (simp add: hi len)
  show "\<forall>a b. lo \<le> a \<longrightarrow> a < b \<longrightarrow> b < hi \<longrightarrow> psi csa a < psi csa b"
  proof (intro allI impI)
    fix a b assume ab: "lo \<le> a" "a < b" "b < hi"
    with hn have bn: "b < ?n" and an: "a < ?n" by simp_all
    from rows an ab have "T ! csa_at csa a = c" by simp
    moreover from rows bn ab have "T ! csa_at csa b = c" by simp
    ultimately have "T ! csa_at csa a = T ! csa_at csa b" by simp
    then show "psi csa a < psi csa b"
      using psi_mono_in_bucket [OF assms(1) ab(2) bn] by simp
  qed
qed

lemma rank_bwt_as_card:
  assumes "csa_of_text T csa" and "c \<in> set T"
  shows "rank_bwt csa i c =
         card {j. csa_C csa ! csa_char2comp csa c \<le> j \<and>
                  j < csa_C csa ! (1 + csa_char2comp csa c) \<and> psi csa j < i}"
proof -
  let ?lo = "csa_C csa ! csa_char2comp csa c"
  let ?hi = "csa_C csa ! (1 + csa_char2comp csa c)"
  note b = bucket_of_char [OF assms]
  have present: "\<not> (csa_char2comp csa c = 0 \<and> c \<noteq> 0)"
    using char2comp_nonzero [OF assms] by blast
  from present have "rank_bwt csa i c =
        (let l = rank_bwt_loop csa i ?lo ?hi
         in if l > ?lo then l - ?lo + 1 else if psi csa l < i then 1 else 0)"
    by (auto simp: rank_bwt_def Let_def)
  also have "\<dots> = card {j. ?lo \<le> j \<and> j < ?hi \<and> psi csa j < i}"
    using b(4) _ b(1) by (rule rank_bwt_loop_result) simp_all
  finally show ?thesis .
qed

lemma rank_bwt_absent:
  assumes "csa_of_text T csa" and "c \<notin> set T"
  shows "rank_bwt csa i c = 0" and "select_bwt csa i c = csa_size csa"
proof -
  from assms(1) have "\<forall>c. c \<notin> set T \<longrightarrow> char2comp (m_alphabet csa) c = 0"
    unfolding csa_of_text_def alphabet_of_text_def by blast
  with assms(2) have "csa_char2comp csa c = 0" by (simp add: csa_char2comp_def)
  moreover have "c \<noteq> 0" using sentinel_in_text [OF assms(1)] assms(2) by auto
  ultimately show "rank_bwt csa i c = 0" and "select_bwt csa i c = csa_size csa"
    by (simp_all add: rank_bwt_def select_bwt_def)
qed

lemma unsorted_csa_inverse: "sa_isa_inverse unsorted_csa"
  unfolding sa_isa_inverse_def unsorted_csa_def all_less_upt
  by simp

lemma unsorted_csa_alphabet: "alphabet_of_text unsorted_text (m_alphabet unsorted_csa)"
  unfolding alphabet_of_text_def all_less_upt
proof (intro conjI)
  show "\<forall>c. c \<notin> set unsorted_text \<longrightarrow> char2comp (m_alphabet unsorted_csa) c = 0"
    by (simp add: unsorted_text_def unsorted_csa_def)
  show "set (comp2char (m_alphabet unsorted_csa)) = set unsorted_text"
    by (auto simp: unsorted_text_def unsorted_csa_def)
qed (simp_all add: unsorted_text_def unsorted_csa_def upt_conv_Cons)

lemma bab_csa_inverse: "sa_isa_inverse bab_csa"
  unfolding sa_isa_inverse_def bab_csa_def all_less_upt
  by simp

lemma bab_csa_alphabet: "alphabet_of_text bab (m_alphabet bab_csa)"
  unfolding alphabet_of_text_def all_less_upt
proof (intro conjI)
  show "\<forall>c. c \<notin> set bab \<longrightarrow> char2comp (m_alphabet bab_csa) c = 0"
    by (simp add: bab_def bab_csa_def)
  show "set (comp2char (m_alphabet bab_csa)) = set bab"
    by (auto simp: bab_def bab_csa_def)
qed (simp_all add: bab_def bab_csa_def upt_conv_Cons)

lemma bab_csa_sorted:
  "sorted_wrt (<) (map (\<lambda>j. drop (csa_at bab_csa j) bab) [0..<csa_size bab_csa])"
  by code_simp

text \<open>
  C2 (amended). Let \<open>csa\<close> be the \<open>csa_bitcompressed\<close> of a text \<open>T\<close> of length
  \<open>n = size() < 2^64\<close>: \<open>T\<close> ends in the sentinel 0, which occurs nowhere else in \<open>T\<close>;
  SA lists the suffixes of \<open>T\<close> in increasing lexicographic order and ISA is its inverse,
  so that they are mutually inverse permutations of \<open>[0, n)\<close>; and the alphabet tables
  are built from \<open>T\<close>. Then for every character \<open>c\<close> and every \<open>i \<le> size()\<close>,
  \<open>rank_bwt(i, c)\<close> is the number of positions \<open>j < i\<close> with \<open>BWT[j] = c\<close>, where \<open>BWT[j]\<close>
  is the text character at position \<open>(SA[j] + n - 1) mod n\<close>; and \<open>rank_bwt(i, c) = 0\<close>
  whenever \<open>c\<close> does not occur in the text.
\<close>

theorem rank_bwt_counts_bwt:
  assumes "csa_of_text T csa" and "i \<le> csa_size csa"
  shows "rank_bwt csa i c = bwt_count T csa i c \<and> (c \<notin> set T \<longrightarrow> rank_bwt csa i c = 0)"
proof (cases "c \<in> set T")
  case True
  note b = bucket_of_char [OF assms(1) True]
  have "{j. j < csa_size csa \<and> T ! csa_at csa j = c \<and> psi csa j < i} =
        {j. csa_C csa ! csa_char2comp csa c \<le> j \<and>
            j < csa_C csa ! (1 + csa_char2comp csa c) \<and> psi csa j < i}"
    using b(2,3) by auto
  then show ?thesis
    using True by (simp only: rank_bwt_as_card [OF assms(1) True]
        bwt_count_as_card [OF assms]) simp
next
  case False
  note inv = csa_of_text_facts(1) [OF assms(1)] and len = csa_of_text_facts(2) [OF assms(1)]
  have "T ! csa_at csa j \<noteq> c" if "j < csa_size csa" for j
  proof -
    have "csa_at csa j < length T" using isa_sa(2) [OF inv that] len by simp
    then have "T ! csa_at csa j \<in> set T" by (rule nth_mem)
    with False show ?thesis by auto
  qed
  then have "{j. j < csa_size csa \<and> T ! csa_at csa j = c \<and> psi csa j < i} = {}" by auto
  then have "bwt_count T csa i c = 0" by (simp only: bwt_count_as_card [OF assms]) simp
  with rank_bwt_absent(1) [OF assms(1) False] show ?thesis by simp
qed

lemma small_csa_of_mississippi: "csa_of_text mississippi small_csa"
proof -
  have sz: "length mississippi = csa_size small_csa" "csa_size small_csa < 2 ^ 64"
    by (simp_all add: mississippi_def small_csa_def csa_size_def)
  note inv = small_csa_inverse
  have sent: "mississippi \<noteq> []" "last mississippi = 0" "0 \<notin> set (butlast mississippi)"
    by (simp_all add: mississippi_def)
  have srt: "sorted_wrt (<) (map (\<lambda>j. drop (csa_at small_csa j) mississippi)
               [0..<csa_size small_csa])"
    by code_simp
  have al: "alphabet_of_text mississippi (m_alphabet small_csa)"
    unfolding alphabet_of_text_def all_less_upt
  proof (intro conjI)
    show "\<forall>c. c \<notin> set mississippi \<longrightarrow> char2comp (m_alphabet small_csa) c = 0"
      by (simp add: mississippi_def small_csa_def)
    show "set (comp2char (m_alphabet small_csa)) = set mississippi"
      by (auto simp: mississippi_def small_csa_def)
  qed (simp_all add: mississippi_def small_csa_def upt_conv_Cons)
  from sz inv sent srt al show ?thesis unfolding csa_of_text_def by blast
qed

theorem rank_bwt_counts_bwt_witness:
  "csa_of_text mississippi small_csa \<and> 6 \<le> csa_size small_csa \<and>
   rank_bwt small_csa 6 115 = 2 \<and> bwt_count mississippi small_csa 6 115 = 2 \<and>
   120 \<notin> set mississippi \<and> rank_bwt small_csa 6 120 = 0"
proof -
  have sz: "6 \<le> csa_size small_csa" by (simp add: small_csa_def csa_size_def)
  have cnt: "bwt_count mississippi small_csa 6 115 = 2" by code_simp
  have absent: "120 \<notin> set mississippi" by (simp add: mississippi_def)
  from rank_bwt_counts_bwt [OF small_csa_of_mississippi sz, of 115]
    rank_bwt_counts_bwt [OF small_csa_of_mississippi sz, of 120]
    small_csa_of_mississippi sz cnt absent
  show ?thesis by simp
qed

text \<open>
  C2 as stated asks only that SA and ISA be mutually inverse permutations and that the
  alphabet tables be built from the text. That is not enough for the binary search
  over \<open>psi\<close>. For the text \<open>1 1 0\<close> with \<open>SA = [2, 0, 1]\<close>, a permutation that is not the
  suffix array, \<open>BWT[0] = T[1] = 1\<close>, so one position below 1 holds the character 1,
  but \<open>rank_bwt(1, 1)\<close> finds \<open>psi[2] = 0 < 1\<close> and returns 2. For the text \<open>bab\<close>,
  which has no sentinel, with its suffix array \<open>[1, 2, 0]\<close>, \<open>BWT[0] = T[0] = b\<close>, and
  \<open>rank_bwt(1, b)\<close> finds \<open>psi[2] = 0 < 1\<close> and returns 2.
\<close>

theorem rank_bwt_counts_bwt_counterexample:
  "sa_isa_inverse unsorted_csa \<and>
   alphabet_of_text unsorted_text (m_alphabet unsorted_csa) \<and>
   length unsorted_text = csa_size unsorted_csa \<and>
   last unsorted_text = 0 \<and> 0 \<notin> set (butlast unsorted_text) \<and>
   1 \<le> csa_size unsorted_csa \<and> 1 \<in> set unsorted_text \<and>
   bwt_count unsorted_text unsorted_csa 1 1 = 1 \<and>
   rank_bwt unsorted_csa 1 1 = 2 \<and>
   rank_bwt unsorted_csa 1 1 \<noteq> bwt_count unsorted_text unsorted_csa 1 1 \<and>
   sa_isa_inverse bab_csa \<and>
   alphabet_of_text bab (m_alphabet bab_csa) \<and>
   length bab = csa_size bab_csa \<and>
   sorted_wrt (<) (map (\<lambda>j. drop (csa_at bab_csa j) bab) [0..<csa_size bab_csa]) \<and>
   1 \<le> csa_size bab_csa \<and> 98 \<in> set bab \<and>
   bwt_count bab bab_csa 1 98 = 1 \<and>
   rank_bwt bab_csa 1 98 = 2 \<and>
   rank_bwt bab_csa 1 98 \<noteq> bwt_count bab bab_csa 1 98"
proof -
  have u: "length unsorted_text = csa_size unsorted_csa" "last unsorted_text = 0"
    "0 \<notin> set (butlast unsorted_text)" "1 \<le> csa_size unsorted_csa" "1 \<in> set unsorted_text"
    by (simp_all add: unsorted_text_def unsorted_csa_def csa_size_def)
  have uc: "bwt_count unsorted_text unsorted_csa 1 1 = 1"
    by (simp add: bwt_count_def bwt_char_def unsorted_text_def unsorted_csa_def csa_at_def
        csa_size_def)
  have ur: "rank_bwt unsorted_csa 1 1 = 2"
    by (simp add: rank_bwt_def rank_bwt_loop.simps unsorted_csa_def csa_char2comp_def
        csa_C_def psi_def isa_def csa_at_def csa_size_def Let_def)
  have b: "length bab = csa_size bab_csa" "1 \<le> csa_size bab_csa" "98 \<in> set bab"
    by (simp_all add: bab_def bab_csa_def csa_size_def)
  have bc: "bwt_count bab bab_csa 1 98 = 1"
    by (simp add: bwt_count_def bwt_char_def bab_def bab_csa_def csa_at_def csa_size_def)
  have br: "rank_bwt bab_csa 1 98 = 2"
    by (simp add: rank_bwt_def rank_bwt_loop.simps bab_csa_def csa_char2comp_def
        csa_C_def psi_def isa_def csa_at_def csa_size_def Let_def)
  from unsorted_csa_inverse unsorted_csa_alphabet u uc ur
    bab_csa_inverse bab_csa_alphabet bab_csa_sorted b bc br
  show ?thesis by simp
qed

subsection \<open>\<open>select_bwt\<close> against \<open>rank_bwt\<close>\<close>

lemma rank_bwt_whole:
  assumes "csa_of_text T csa" and "c \<in> set T"
  shows "rank_bwt csa (csa_size csa) c =
         csa_C csa ! (1 + csa_char2comp csa c) - csa_C csa ! csa_char2comp csa c"
proof -
  let ?lo = "csa_C csa ! csa_char2comp csa c"
  let ?hi = "csa_C csa ! (1 + csa_char2comp csa c)"
  note b = bucket_of_char [OF assms]
  note inv = csa_of_text_facts(1) [OF assms(1)]
  have "{j. ?lo \<le> j \<and> j < ?hi \<and> psi csa j < csa_size csa} = {?lo..<?hi}"
    using psi_range [OF inv] b(2) by auto
  then show ?thesis by (simp add: rank_bwt_as_card [OF assms])
qed

lemma wrap_pred:
  fixes x N :: nat
  assumes "1 \<le> x" and "x - 1 < N"
  shows "(x + N - 1) mod N = x - 1"
proof -
  from assms(1) obtain y where x: "x = Suc y" by (cases x) simp_all
  then have "x + N - 1 = y + N" by simp
  then have "(x + N - 1) mod N = y mod N" by simp
  with assms(2) x show ?thesis by simp
qed

lemma select_bwt_in_bucket:
  assumes "csa_of_text T csa" and "c \<in> set T" and "1 \<le> i"
    and "i \<le> csa_C csa ! (1 + csa_char2comp csa c) - csa_C csa ! csa_char2comp csa c"
  shows "select_bwt csa i c = psi csa (csa_C csa ! csa_char2comp csa c + i - 1)"
proof -
  let ?lo = "csa_C csa ! csa_char2comp csa c"
  let ?hi = "csa_C csa ! (1 + csa_char2comp csa c)"
  note b = bucket_of_char [OF assms(1,2)]
  have present: "\<not> (csa_char2comp csa c = 0 \<and> c \<noteq> 0)"
    using char2comp_nonzero [OF assms(1,2)] by blast
  have lt: "?lo + i - 1 < ?hi" using assms(3,4) b(1) by simp
  with b(2) csa_of_text_facts(4) [OF assms(1)] have "?lo + i - 1 < 2 ^ 64" by simp
  moreover have "1 \<le> ?lo + i" using assms(3) by simp
  ultimately have wrap: "(?lo + i + 2 ^ 64 - 1) mod 2 ^ 64 = ?lo + i - 1"
    by (intro wrap_pred)
  from present lt show ?thesis
    unfolding select_bwt_def Let_def wrap by auto
qed

text \<open>
  C5 (amended). Let \<open>csa\<close> be the \<open>csa_bitcompressed\<close> of a text \<open>T\<close> of length
  \<open>n = size() < 2^64\<close>: \<open>T\<close> ends in the sentinel 0, which occurs nowhere else in \<open>T\<close>;
  SA lists the suffixes of \<open>T\<close> in increasing lexicographic order and ISA is its inverse;
  and the alphabet tables are built from \<open>T\<close>. Then for every character \<open>c\<close> and every
  \<open>i\<close> with \<open>1 \<le> i \<le> rank_bwt(size(), c)\<close>:
  \<open>rank_bwt(select_bwt(i, c) + 1, c) = i\<close> and \<open>select_bwt(i, c) < size()\<close>.
  The range starts at 1, as the parameter documentation of \<open>select_bwt\<close> has it.
\<close>

theorem rank_select_bwt:
  assumes "csa_of_text T csa" and "1 \<le> i" and "i \<le> rank_bwt csa (csa_size csa) c"
  shows "rank_bwt csa (select_bwt csa i c + 1) c = i \<and> select_bwt csa i c < csa_size csa"
proof -
  let ?lo = "csa_C csa ! csa_char2comp csa c"
  let ?hi = "csa_C csa ! (1 + csa_char2comp csa c)"
  let ?m = "?lo + i - 1"
  note inv = csa_of_text_facts(1) [OF assms(1)]
  have c: "c \<in> set T"
  proof (rule ccontr)
    assume "c \<notin> set T"
    from rank_bwt_absent(1) [OF assms(1) this] assms(2,3) show False by simp
  qed
  note b = bucket_of_char [OF assms(1) c]
  have i: "i \<le> ?hi - ?lo" using assms(3) by (simp only: rank_bwt_whole [OF assms(1) c])
  have sel: "select_bwt csa i c = psi csa ?m"
    using assms(1) c assms(2) i by (rule select_bwt_in_bucket)
  have m: "?lo \<le> ?m" "?m < ?hi" using assms(2) i b(1) by simp_all
  with b(2) have "?m < csa_size csa" by simp
  then have bound: "psi csa ?m < csa_size csa" using psi_range [OF inv] by simp
  have "psi csa j < psi csa ?m + 1 \<longleftrightarrow> j \<le> ?m" if "?lo \<le> j" "j < ?hi" for j
  proof (cases "j \<le> ?m")
    case True
    have "psi csa j \<le> psi csa ?m"
    proof (cases "j = ?m")
      case False
      with True have "j < ?m" by simp
      with b(4) that(1) m(2) have "psi csa j < psi csa ?m" by blast
      then show ?thesis by simp
    qed simp
    with True show ?thesis by simp
  next
    case False
    then have "?m < j" by simp
    with b(4) m(1) that(2) have "psi csa ?m < psi csa j" by blast
    with False show ?thesis by simp
  qed
  then have "{j. ?lo \<le> j \<and> j < ?hi \<and> psi csa j < psi csa ?m + 1} = {?lo..?m}"
    using m by auto
  then have "rank_bwt csa (psi csa ?m + 1) c = card {?lo..?m}"
    by (simp only: rank_bwt_as_card [OF assms(1) c])
  also have "\<dots> = i" using assms(2) by simp
  finally show ?thesis using bound by (simp add: sel)
qed

theorem rank_select_bwt_witness:
  "csa_of_text mississippi small_csa \<and> (1::nat) \<le> 2 \<and>
   2 \<le> rank_bwt small_csa (csa_size small_csa) 115 \<and>
   select_bwt small_csa 2 115 = 3 \<and>
   rank_bwt small_csa (select_bwt small_csa 2 115 + 1) 115 = 2 \<and>
   select_bwt small_csa 2 115 < csa_size small_csa"
proof -
  have one: "(1::nat) \<le> 2" by simp
  have "rank_bwt small_csa (csa_size small_csa) 115 = 4"
    by (simp add: rank_bwt_def rank_bwt_loop.simps small_csa_def csa_char2comp_def csa_C_def
        psi_def isa_def csa_at_def csa_size_def Let_def)
  then have r: "2 \<le> rank_bwt small_csa (csa_size small_csa) 115" by simp
  have s: "select_bwt small_csa 2 115 = 3"
    by (simp add: select_bwt_def small_csa_def csa_char2comp_def csa_C_def psi_def isa_def
        csa_at_def csa_size_def)
  from rank_select_bwt [OF small_csa_of_mississippi one r] small_csa_of_mississippi one r s
  show ?thesis by simp
qed

text \<open>
  C5 as stated lets \<open>i\<close> start at 0. On the CSA of \<open>mississippi$\<close>:
  \<open>select_bwt(0, 'i')\<close> reads \<open>psi[C[1] - 1] = psi[0] = 5\<close>, a row of the sentinel's
  bucket, and \<open>rank_bwt(6, 'i') = 1\<close>, not 0; \<open>select_bwt(0, 0)\<close> computes
  \<open>C[0] + 0 - 1\<close>, which wraps to \<open>2^64 - 1\<close>, and returns \<open>size()\<close>.

  C5 as stated also asks only that SA and ISA be mutually inverse permutations and
  that the alphabet tables be built from the text. For the text \<open>1 1 0\<close> with
  \<open>SA = [2, 0, 1]\<close>, which is not its suffix array, and for the text \<open>bab\<close>, which has
  no sentinel, with its suffix array \<open>[1, 2, 0]\<close>: the character occurs twice,
  \<open>select_bwt(1, c) = psi[1] = 2\<close> and \<open>rank_bwt(3, c) = 2\<close>, not 1.
\<close>

theorem rank_select_bwt_counterexample:
  "csa_of_text mississippi small_csa \<and>
   0 \<le> rank_bwt small_csa (csa_size small_csa) 105 \<and>
   select_bwt small_csa 0 105 = 5 \<and>
   rank_bwt small_csa (select_bwt small_csa 0 105 + 1) 105 = 1 \<and>
   rank_bwt small_csa (select_bwt small_csa 0 105 + 1) 105 \<noteq> 0 \<and>
   0 \<le> rank_bwt small_csa (csa_size small_csa) 0 \<and>
   select_bwt small_csa 0 0 = csa_size small_csa \<and>
   \<not> select_bwt small_csa 0 0 < csa_size small_csa \<and>
   sa_isa_inverse unsorted_csa \<and>
   alphabet_of_text unsorted_text (m_alphabet unsorted_csa) \<and>
   rank_bwt unsorted_csa (csa_size unsorted_csa) 1 = 2 \<and>
   select_bwt unsorted_csa 1 1 = 2 \<and>
   rank_bwt unsorted_csa (select_bwt unsorted_csa 1 1 + 1) 1 = 2 \<and>
   rank_bwt unsorted_csa (select_bwt unsorted_csa 1 1 + 1) 1 \<noteq> 1 \<and>
   sa_isa_inverse bab_csa \<and>
   alphabet_of_text bab (m_alphabet bab_csa) \<and>
   sorted_wrt (<) (map (\<lambda>j. drop (csa_at bab_csa j) bab) [0..<csa_size bab_csa]) \<and>
   rank_bwt bab_csa (csa_size bab_csa) 98 = 2 \<and>
   select_bwt bab_csa 1 98 = 2 \<and>
   rank_bwt bab_csa (select_bwt bab_csa 1 98 + 1) 98 = 2 \<and>
   rank_bwt bab_csa (select_bwt bab_csa 1 98 + 1) 98 \<noteq> 1"
proof -
  have s: "select_bwt small_csa 0 105 = 5"
    by (simp add: select_bwt_def small_csa_def csa_char2comp_def csa_C_def psi_def isa_def
        csa_at_def csa_size_def)
  have r: "rank_bwt small_csa 6 105 = 1"
    by (simp add: rank_bwt_def rank_bwt_loop.simps small_csa_def csa_char2comp_def csa_C_def
        psi_def isa_def csa_at_def csa_size_def Let_def)
  have z: "select_bwt small_csa 0 0 = csa_size small_csa"
    by (simp add: select_bwt_def small_csa_def csa_char2comp_def csa_C_def psi_def isa_def
        csa_at_def csa_size_def)
  have us: "select_bwt unsorted_csa 1 1 = 2"
    by (simp add: select_bwt_def unsorted_csa_def csa_char2comp_def csa_C_def psi_def isa_def
        csa_at_def csa_size_def)
  have ur: "rank_bwt unsorted_csa 3 1 = 2"
    by (simp add: rank_bwt_def rank_bwt_loop.simps unsorted_csa_def csa_char2comp_def
        csa_C_def psi_def isa_def csa_at_def csa_size_def Let_def)
  have un: "csa_size unsorted_csa = 3" by (simp add: unsorted_csa_def csa_size_def)
  have bs: "select_bwt bab_csa 1 98 = 2"
    by (simp add: select_bwt_def bab_csa_def csa_char2comp_def csa_C_def psi_def isa_def
        csa_at_def csa_size_def)
  have br: "rank_bwt bab_csa 3 98 = 2"
    by (simp add: rank_bwt_def rank_bwt_loop.simps bab_csa_def csa_char2comp_def
        csa_C_def psi_def isa_def csa_at_def csa_size_def Let_def)
  have bn: "csa_size bab_csa = 3" by (simp add: bab_csa_def csa_size_def)
  from small_csa_of_mississippi s r z
    unsorted_csa_inverse unsorted_csa_alphabet us ur un
    bab_csa_inverse bab_csa_alphabet bab_csa_sorted bs br bn
  show ?thesis by simp
qed

end
